theory Spec2Isabelle
  imports Main
begin

section \<open>JavaScript strings\<close>

text \<open>
  A JavaScript string is a sequence of UTF-16 code units. The front end only cuts,
  joins and compares strings, so a code unit is modelled by its number and a string by
  the list of its code units. Literals of the source are written with \<open>js\<close>.
\<close>

type_synonym jsstring = "nat list"

definition js :: "string \<Rightarrow> jsstring" where
  "js s = map of_char s"

definition nl :: nat where
  "nl = 10"

text \<open>
  The code units that \<open>String.prototype.trim\<close> strips and that \<open>\s\<close> matches: the
  WhiteSpace and LineTerminator productions of ECMAScript.
\<close>

definition is_ws :: "nat \<Rightarrow> bool" where
  "is_ws c = (c \<in> {9, 10, 11, 12, 13, 32, 160, 5760, 8232, 8233, 8239, 8287, 12288, 65279}
     \<or> (8192 \<le> c \<and> c \<le> 8202))"

text \<open>The line terminators, which \<open>.\<close> in a regular expression does not match.\<close>

definition is_lt :: "nat \<Rightarrow> bool" where
  "is_lt c = (c \<in> {10, 13, 8232, 8233})"

definition trimStart :: "jsstring \<Rightarrow> jsstring" where
  "trimStart s = dropWhile is_ws s"

definition trimEnd :: "jsstring \<Rightarrow> jsstring" where
  "trimEnd s = rev (dropWhile is_ws (rev s))"

definition trim :: "jsstring \<Rightarrow> jsstring" where
  "trim s = trimEnd (trimStart s)"

text \<open>\<open>s.split("\n")\<close>: the pieces between the newlines, always at least one piece.\<close>

fun split_nl :: "jsstring \<Rightarrow> jsstring list" where
  "split_nl [] = [[]]"
| "split_nl (c # cs) =
     (if c = nl then [] # split_nl cs
      else (case split_nl cs of [] \<Rightarrow> [[c]] | l # ls \<Rightarrow> (c # l) # ls))"

text \<open>\<open>x || d\<close> for a string: the empty string is falsy.\<close>

definition or_else :: "jsstring \<Rightarrow> jsstring \<Rightarrow> jsstring" where
  "or_else x d = (if x = [] then d else x)"

section \<open>The story view\<close>

text \<open>
  What \<open>storyEl\<close> shows: nothing yet, the box of \<open>renderStoryProgress\<close> with its text, or the box of
  \<open>renderStory\<close> with the text of the transcript and one button for each choice (the
  label of the button and the text its click puts into the action field).
\<close>

datatype view = Blank | ProgressBox jsstring | StoryBox jsstring "(jsstring \<times> jsstring) list"

text \<open>
  One attempt of \<open>/(^|\n)1\.\s+/\<close> at index \<open>i\<close> of \<open>t\<close>: the length of group 1 and the
  index after the match. \<open>^\<close> matches at index 0 only; \<open>\s+\<close> is greedy and nothing
  follows it, so it takes the whole run of white space.
\<close>

definition starts_one :: "jsstring \<Rightarrow> bool" where
  "starts_one s = (case s of a # b # c # _ \<Rightarrow> a = 49 \<and> b = 46 \<and> is_ws c | _ \<Rightarrow> False)"

definition ws_run :: "jsstring \<Rightarrow> nat" where
  "ws_run s = length (takeWhile is_ws s)"

definition match_at :: "jsstring \<Rightarrow> nat \<Rightarrow> (nat \<times> nat) option" where
  "match_at t i =
     (if i = 0 \<and> starts_one t then Some (0, 2 + ws_run (drop 2 t))
      else if i < length t \<and> t ! i = nl \<and> starts_one (drop (Suc i) t)
        then Some (1, i + 3 + ws_run (drop (i + 3) t))
      else None)"

text \<open>
  \<open>re.exec(t)\<close> with \<open>lastIndex = i\<close>: the first index from \<open>i\<close> on at which the
  expression matches, with the length of group 1 and the new \<open>lastIndex\<close>.
\<close>

function re_exec :: "jsstring \<Rightarrow> nat \<Rightarrow> (nat \<times> nat \<times> nat) option" where
  "re_exec t i =
     (if length t < i then None
      else (case match_at t i of
              Some (g, e) \<Rightarrow> Some (i, g, e)
            | None \<Rightarrow> re_exec t (Suc i)))"
  by pat_completeness auto
termination
  by (relation "measure (\<lambda>(t, i). Suc (length t) - i)") auto

declare re_exec.simps [simp del]

lemma match_at_end: "match_at t i = Some (g, e) \<Longrightarrow> i < e \<and> i \<le> length t"
  by (auto simp: match_at_def split: if_splits)

lemma re_exec_Some:
  "re_exec t i = Some (idx, g, e) \<Longrightarrow>
     i \<le> idx \<and> idx \<le> length t \<and> idx < e \<and> match_at t idx = Some (g, e)"
proof (induction t i rule: re_exec.induct)
  case (1 t i)
  show ?case
  proof (cases "match_at t i")
    case None
    with "1.prems" have le: "\<not> length t < i" and r: "re_exec t (Suc i) = Some (idx, g, e)"
      by (auto simp: re_exec.simps[of t i] split: if_splits)
    from "1.IH"[OF le None r] show ?thesis by simp
  next
    case (Some p)
    with "1.prems" show ?thesis
      by (cases p) (auto simp: re_exec.simps[of t i] split: if_splits dest: match_at_end)
  qed
qed

text \<open>
  The loop \<open>while ((match = re.exec(t)) !== null) lastMatchIndex = ...\<close>, from
  \<open>lastIndex = li\<close> and the value \<open>found\<close> of \<open>lastMatchIndex\<close> so far.
\<close>

function exec_loop :: "jsstring \<Rightarrow> nat \<Rightarrow> int \<Rightarrow> int" where
  "exec_loop t li found =
     (case re_exec t li of
        None \<Rightarrow> found
      | Some (idx, g, e) \<Rightarrow> exec_loop t e (int idx + int g))"
  by pat_completeness auto
termination
proof (relation "measure (\<lambda>(t, li, found). Suc (length t) - li)")
  show "wf (measure (\<lambda>(t, li, found). Suc (length t) - li))" by simp
next
  fix t :: jsstring and li :: nat and found :: int and x2 x y x2a xa ya
  assume "re_exec t li = Some x2" "(x, y) = x2" "(xa, ya) = y"
  then have "re_exec t li = Some (x, xa, ya)" by simp
  from re_exec_Some[OF this]
  show "((t, ya, int x + int xa), t, li, found) \<in> measure (\<lambda>(t, li, found). Suc (length t) - li)"
    by auto
qed

declare exec_loop.simps [simp del]

definition lastMatchIndex :: "jsstring \<Rightarrow> int" where
  "lastMatchIndex t = exec_loop t 0 (- 1)"

definition mainText :: "jsstring \<Rightarrow> jsstring" where
  "mainText t =
     (if 0 \<le> lastMatchIndex t then trimEnd (take (nat (lastMatchIndex t)) t) else t)"

definition choicesText :: "jsstring \<Rightarrow> jsstring" where
  "choicesText t =
     (if 0 \<le> lastMatchIndex t then trim (drop (nat (lastMatchIndex t)) t) else [])"

text \<open>\<open>choicesText.split("\n").map((l) => l.trim()).filter(Boolean)\<close>\<close>

definition lines_of :: "jsstring \<Rightarrow> jsstring list" where
  "lines_of s = filter (\<lambda>l. l \<noteq> []) (map trim (split_nl s))"

text \<open>\<open>/^[1-3]\.\s+/.test(l)\<close>\<close>

definition choice_prefix :: "jsstring \<Rightarrow> bool" where
  "choice_prefix l =
     (case l of d # p # c # _ \<Rightarrow> d \<in> {49, 50, 51} \<and> p = 46 \<and> is_ws c | _ \<Rightarrow> False)"

definition choiceLines :: "jsstring \<Rightarrow> jsstring list" where
  "choiceLines t = take 3 (filter choice_prefix (lines_of (choicesText t)))"

text \<open>
  \<open>\s+(.*)$\<close> on the rest of a line, by backtracking: \<open>\s+\<close> first takes the \<open>n\<close> code
  units of the whole run of white space, then gives them back one at a time; after
  each try \<open>(.*)\<close> takes every code unit up to the first line terminator and \<open>$\<close> wants
  the end of the line there. The result is group 2.
\<close>

fun backtrack :: "nat \<Rightarrow> jsstring \<Rightarrow> jsstring option" where
  "backtrack 0 r = None"
| "backtrack (Suc n) r =
     (if list_all (\<lambda>c. \<not> is_lt c) (drop (Suc n) r) then Some (drop (Suc n) r)
      else backtrack n r)"

text \<open>\<open>line.match(/^([1-3])\.\s+(.*)$/)\<close>: group 2, or None for \<open>null\<close>.\<close>

definition choice_match :: "jsstring \<Rightarrow> jsstring option" where
  "choice_match l =
     (case l of
        d # p # r \<Rightarrow>
          if d \<in> {49, 50, 51} \<and> p = 46 then backtrack (ws_run r) r else None
      | _ \<Rightarrow> None)"

text \<open>The buttons: \<open>forEach\<close> skips a line on which \<open>match\<close> gives \<open>null\<close>.\<close>

definition buttons :: "jsstring \<Rightarrow> (jsstring \<times> jsstring) list" where
  "buttons t =
     (if choicesText t = [] then []
      else List.map_filter (\<lambda>l. map_option (\<lambda>m2. (l, m2)) (choice_match l)) (choiceLines t))"

definition choices :: "jsstring \<Rightarrow> jsstring list" where
  "choices t = map snd (buttons t)"

definition renderStory :: "jsstring \<Rightarrow> view" where
  "renderStory text =
     (let t = trim (or_else text [])
      in StoryBox (or_else (mainText t) (js ''No story yet. Click 'New Story' to begin.''))
           (buttons t))"

definition renderStoryProgress :: "jsstring \<Rightarrow> view" where
  "renderStoryProgress text = ProgressBox text"

section \<open>Streaming typewriter control\<close>

text \<open>
  The closure stored in \<open>pendingFinalizeFn\<close>. Both places that store one (\<open>newStory\<close>
  and \<open>sendAction\<close>) store the same code, which reads nothing but globals.
\<close>

datatype finalize_fn = FinalizeStory

text \<open>
  The module's variables, the parts of the page the code reads and writes, and the
  browser's table of running intervals: the handle \<open>setInterval\<close> returned for each and
  the \<open>prefix\<close> its callback has captured (\<open>onUpdate\<close> is \<open>renderStoryProgress\<close> at both
  callers). A handle is a positive number in a browser, so every handle is truthy and
  \<open>None\<close> stands for \<open>null\<close>. Three fields record what has happened and are never
  read by the code: \<open>updates\<close> holds the argument of every call of \<open>onUpdate\<close>,
  \<open>fn_calls\<close> holds \<open>streamQueue\<close> and \<open>streamRendered\<close> as they were at every call of
  a finalize closure, and \<open>fetches\<close> holds the path and the action of every request.
\<close>

record page =
  streamQueue :: jsstring
  streamTimer :: "nat option"
  streamRendered :: jsstring
  pendingFinalStory :: "jsstring option"
  pendingFinalizeFn :: "finalize_fn option"
  currentStoryText :: jsstring
  intervals :: "(nat \<times> jsstring) list"
  nextHandle :: nat
  storyEl :: view
  actionEl_value :: jsstring
  sendBtn_disabled :: bool
  newBtn_disabled :: bool
  updates :: "jsstring list"
  fn_calls :: "(jsstring \<times> jsstring) list"
  fetches :: "(jsstring \<times> jsstring) list"

definition STREAM_MS_PER_CHAR :: nat where
  "STREAM_MS_PER_CHAR = 14"

text \<open>
  \<open>Math.max(1, Math.floor(30 / periodMs))\<close>; for a positive whole number of milliseconds
  the floor of the quotient is the integer quotient.
\<close>

definition take_of :: "nat \<Rightarrow> nat" where
  "take_of periodMs = max 1 (30 div periodMs)"

definition clearInterval :: "nat \<Rightarrow> page \<Rightarrow> page" where
  "clearInterval h s = s\<lparr>intervals := filter (\<lambda>(i, p). i \<noteq> h) (intervals s)\<rparr>"

definition setInterval :: "jsstring \<Rightarrow> page \<Rightarrow> nat \<times> page" where
  "setInterval prefix s =
     (nextHandle s,
      s\<lparr>intervals := intervals s @ [(nextHandle s, prefix)], nextHandle := Suc (nextHandle s)\<rparr>)"

definition startTypewriter :: "jsstring \<Rightarrow> page \<Rightarrow> page" where
  "startTypewriter prefix s =
     (let s1 = s\<lparr>streamRendered := []\<rparr>;
          s2 = (case streamTimer s1 of Some h \<Rightarrow> clearInterval h s1 | None \<Rightarrow> s1);
          (h, s3) = setInterval prefix s2
      in s3\<lparr>streamTimer := Some h\<rparr>)"

definition stopTypewriter :: "page \<Rightarrow> page" where
  "stopTypewriter s =
     (let s1 = (case streamTimer s of Some h \<Rightarrow> clearInterval h s | None \<Rightarrow> s)
      in s1\<lparr>streamTimer := None, streamQueue := [], streamRendered := []\<rparr>)"

text \<open>\<open>(text) => renderStoryProgress(text)\<close>, the \<open>onUpdate\<close> of both callers.\<close>

definition onUpdate :: "jsstring \<Rightarrow> page \<Rightarrow> page" where
  "onUpdate text s = s\<lparr>storyEl := renderStoryProgress text, updates := updates s @ [text]\<rparr>"

text \<open>The body of the finalize closure.\<close>

definition finalizeStory :: "page \<Rightarrow> page" where
  "finalizeStory s =
     (let s1 = stopTypewriter s;
          s2 = s1\<lparr>currentStoryText := (case pendingFinalStory s1 of Some x \<Rightarrow> x | None \<Rightarrow> [])\<rparr>
      in s2\<lparr>storyEl := renderStory (currentStoryText s2)\<rparr>)"

text \<open>\<open>fn()\<close>: the call is recorded, then the closure runs.\<close>

definition call_fn :: "finalize_fn \<Rightarrow> page \<Rightarrow> page" where
  "call_fn fn s =
     (case fn of FinalizeStory \<Rightarrow>
        finalizeStory (s\<lparr>fn_calls := fn_calls s @ [(streamQueue s, streamRendered s)]\<rparr>))"

text \<open>
  \<open>const fn = pendingFinalizeFn; pendingFinalizeFn = null; fn();\<close> under the guard
  \<open>if (pendingFinalizeFn)\<close>. The handler of the final event runs the three statements
  without the guard, right after it has stored the closure.
\<close>

definition fire_pending :: "page \<Rightarrow> page" where
  "fire_pending s =
     (case pendingFinalizeFn s of
        Some fn \<Rightarrow> call_fn fn (s\<lparr>pendingFinalizeFn := None\<rparr>)
      | None \<Rightarrow> s)"

text \<open>The callback that \<open>startTypewriter\<close> hands to \<open>setInterval\<close>.\<close>

definition timer_callback :: "jsstring \<Rightarrow> page \<Rightarrow> page" where
  "timer_callback prefix s =
     (if streamQueue s = [] then fire_pending s
      else
        let n = take_of STREAM_MS_PER_CHAR;
            chunk = take n (streamQueue s);
            s1 = s\<lparr>streamQueue := drop n (streamQueue s)\<rparr>;
            s2 = s1\<lparr>streamRendered := streamRendered s1 @ chunk\<rparr>;
            s3 = onUpdate (prefix @ streamRendered s2) s2
        in if streamQueue s3 = [] then fire_pending s3 else s3)"

text \<open>The interval with handle \<open>h\<close> comes due: its callback runs if it is still set.\<close>

definition tick :: "nat \<Rightarrow> page \<Rightarrow> page" where
  "tick h s = (case map_of (intervals s) h of Some prefix \<Rightarrow> timer_callback prefix s | None \<Rightarrow> s)"

section \<open>The stream events\<close>

text \<open>
  The events of the stream, as the handlers tell them apart by \<open>evt.type\<close>. \<open>story\<close> and
  \<open>message\<close> may be missing (\<open>None\<close>); an event of any other type is \<open>Other\<close>.
\<close>

datatype evt = Chunk jsstring | Final "jsstring option" | ErrorEvt "jsstring option" | Other

definition opt_or :: "jsstring option \<Rightarrow> jsstring \<Rightarrow> jsstring" where
  "opt_or x d = (case x of Some v \<Rightarrow> or_else v d | None \<Rightarrow> d)"

text \<open>
  The four statements with which every error path of \<open>newStory\<close> and \<open>sendAction\<close>
  (the \<open>error\<close> event and the \<open>catch\<close> block) begins.
\<close>

definition cancel :: "page \<Rightarrow> page" where
  "cancel s =
     (let s1 = stopTypewriter s;
          s2 = s1\<lparr>streamQueue := []\<rparr>;
          s3 = s2\<lparr>pendingFinalStory := None\<rparr>
      in s3\<lparr>pendingFinalizeFn := None\<rparr>)"

text \<open>
  The handler that \<open>newStory\<close> and \<open>sendAction\<close> pass to \<open>streamNdjson\<close>. The two differ
  in the prefix of the typewriter and in the head of the error text only.
\<close>

definition streamHandler :: "jsstring \<Rightarrow> jsstring \<Rightarrow> evt \<Rightarrow> page \<Rightarrow> page" where
  "streamHandler prefix errHead e s =
     (case e of
        Chunk text \<Rightarrow>
          (let s1 = s\<lparr>streamQueue := streamQueue s @ text\<rparr>
           in if streamTimer s1 = None then startTypewriter prefix s1 else s1)
      | Final story \<Rightarrow>
          (let s1 = s\<lparr>pendingFinalStory := Some (opt_or story [])\<rparr>;
               s2 = s1\<lparr>pendingFinalizeFn := Some FinalizeStory\<rparr>
           in if streamQueue s2 = [] then fire_pending s2 else s2)
      | ErrorEvt message \<Rightarrow>
          (let s1 = cancel s
           in s1\<lparr>storyEl := renderStoryProgress (errHead @ opt_or message (js ''Unknown error.''))\<rparr>)
      | Other \<Rightarrow> s)"

definition newStory_onEvent :: "evt \<Rightarrow> page \<Rightarrow> page" where
  "newStory_onEvent = streamHandler [] (js ''[Error]'' @ [nl])"

definition sendAction_onEvent :: "jsstring \<Rightarrow> evt \<Rightarrow> page \<Rightarrow> page" where
  "sendAction_onEvent prefix = streamHandler prefix (prefix @ [nl] @ js ''[Error]'' @ [nl])"

text \<open>
  What happens to the page while a stream is open: an event arrives, or an interval
  comes due.
\<close>

datatype step = Event evt | Tick nat

definition do_step :: "jsstring \<Rightarrow> jsstring \<Rightarrow> step \<Rightarrow> page \<Rightarrow> page" where
  "do_step prefix errHead x s =
     (case x of Event e \<Rightarrow> streamHandler prefix errHead e s | Tick h \<Rightarrow> tick h s)"

definition run :: "jsstring \<Rightarrow> jsstring \<Rightarrow> step list \<Rightarrow> page \<Rightarrow> page" where
  "run prefix errHead xs s = fold (do_step prefix errHead) xs s"

text \<open>
  \<open>sendAction\<close> up to its first \<open>await\<close>, the \<open>fetch\<close> inside \<open>streamNdjson\<close>: the early
  return, or the buttons, the action field, the progress box and the request.
\<close>

definition sendAction_prefix :: "page \<Rightarrow> jsstring \<Rightarrow> jsstring" where
  "sendAction_prefix s action =
     (if currentStoryText s \<noteq> [] then trim (currentStoryText s) @ [nl, nl] else [])
       @ js ''> You: '' @ action @ [nl, nl]"

definition sendAction :: "page \<Rightarrow> page" where
  "sendAction s =
     (let action = trim (actionEl_value s)
      in if action = [] then s
         else
           let s1 = s\<lparr>sendBtn_disabled := True\<rparr>;
               s2 = s1\<lparr>newBtn_disabled := True\<rparr>;
               s3 = s2\<lparr>actionEl_value := []\<rparr>;
               prefix = sendAction_prefix s3 action;
               s4 = s3\<lparr>storyEl := renderStoryProgress (prefix @ js ''(Thinking'' @ [8230] @ js '')'' @ [nl])\<rparr>
           in s4\<lparr>fetches := fetches s4 @ [(js ''/api/story/turn_stream'', action)]\<rparr>)"

text \<open>The page when the script has been loaded, before \<open>loadStory\<close> has an answer.\<close>

definition init_page :: page where
  "init_page =
     \<lparr>streamQueue = [], streamTimer = None, streamRendered = [], pendingFinalStory = None,
      pendingFinalizeFn = None, currentStoryText = [], intervals = [], nextHandle = 1,
      storyEl = Blank, actionEl_value = [], sendBtn_disabled = False, newBtn_disabled = False,
      updates = [], fn_calls = [], fetches = []\<rparr>"

text \<open>
  The typewriter owns every running interval: the table holds the interval of
  \<open>streamTimer\<close> and nothing else.
\<close>

definition timers_ok :: "page \<Rightarrow> bool" where
  "timers_ok s = (map fst (intervals s) = (case streamTimer s of Some h \<Rightarrow> [h] | None \<Rightarrow> []))"

fun is_final :: "step \<Rightarrow> bool" where
  "is_final (Event (Final story)) = True"
| "is_final x = False"

fun is_tick :: "step \<Rightarrow> bool" where
  "is_tick (Tick h) = True"
| "is_tick x = False"

text \<open>The text of the chunks among the steps, in their order.\<close>

fun chunk_text :: "step \<Rightarrow> jsstring" where
  "chunk_text (Event (Chunk text)) = text"
| "chunk_text x = []"

definition enqueued :: "step list \<Rightarrow> jsstring" where
  "enqueued xs = concat (map chunk_text xs)"

section \<open>Requests and the event stream\<close>

text \<open>
  A value that \<open>JSON.parse\<close> returns. Of a number the code can only see whether it is
  falsy, so a whole number stands for it. An object is the list of its properties.
\<close>

datatype json =
    JNull
  | JBool bool
  | JNumber int
  | JString jsstring
  | JArray "json list"
  | JObject "(jsstring \<times> json) list"

datatype exn = SyntaxError | Error jsstring

text \<open>\<open>JSON.parse\<close> belongs to the browser: the functions below take it as \<open>parse\<close>.\<close>

type_synonym parser = "jsstring \<Rightarrow> exn + json"

fun truthy :: "json \<Rightarrow> bool" where
  "truthy JNull = False"
| "truthy (JBool b) = b"
| "truthy (JNumber n) = (n \<noteq> 0)"
| "truthy (JString x) = (x \<noteq> [])"
| "truthy (JArray xs) = True"
| "truthy (JObject kvs) = True"

text \<open>\<open>obj.name\<close> of a truthy value: \<open>None\<close> is \<open>undefined\<close>.\<close>

fun get_prop :: "json \<Rightarrow> jsstring \<Rightarrow> json option" where
  "get_prop (JObject kvs) name = map_of kvs name"
| "get_prop v name = None"

text \<open>\<open>obj && typeof obj.name === "string"\<close>, with the string.\<close>

definition string_prop :: "json \<Rightarrow> jsstring \<Rightarrow> jsstring option" where
  "string_prop obj name =
     (if truthy obj then (case get_prop obj name of Some (JString x) \<Rightarrow> Some x | _ \<Rightarrow> None)
      else None)"

text \<open>
  The \<open>try\<close> block of \<open>extractErrorMessage\<close>: what it throws, or the value it returns
  (\<open>None\<close> when it runs to its end without a \<open>return\<close>).
\<close>

definition extract_try :: "parser \<Rightarrow> jsstring \<Rightarrow> exn + jsstring option" where
  "extract_try parse text =
     (case parse text of
        Inl e \<Rightarrow> Inl e
      | Inr obj \<Rightarrow>
          (case string_prop obj (js ''detail'') of
             Some d \<Rightarrow> Inr (Some d)
           | None \<Rightarrow>
               (case string_prop obj (js ''message'') of
                  Some m \<Rightarrow> Inr (Some m)
                | None \<Rightarrow> Inr None)))"

definition extractErrorMessage :: "parser \<Rightarrow> jsstring \<Rightarrow> exn + jsstring" where
  "extractErrorMessage parse text =
     (case extract_try parse text of
        Inr (Some r) \<Rightarrow> Inr r
      | _ \<Rightarrow> Inr (or_else (trim (or_else text [])) (js ''Request failed.'')))"

text \<open>\<open>buffer.indexOf("\n")\<close>, \<open>None\<close> for \<open>-1\<close>.\<close>

definition index_nl :: "jsstring \<Rightarrow> nat option" where
  "index_nl b = (if nl \<in> set b then Some (length (takeWhile (\<lambda>c. c \<noteq> nl) b)) else None)"

lemma takeWhile_before: "x \<in> set xs \<Longrightarrow> length (takeWhile (\<lambda>c. c \<noteq> x) xs) < length xs"
  by (induction xs) auto

lemma index_nl_Some: "index_nl b = Some i \<Longrightarrow> i < length b"
  by (auto simp: index_nl_def takeWhile_before split: if_splits)

text \<open>
  The inner loop of \<open>streamNdjson\<close>. \<open>onEvent\<close> is the effect of the handler on the state
  of its caller; what the handler throws is caught together with what \<open>JSON.parse\<close>
  throws and dropped.
\<close>

function drain :: "parser \<Rightarrow> (json \<Rightarrow> 'st \<Rightarrow> 'st) \<Rightarrow> jsstring \<Rightarrow> 'st \<Rightarrow> jsstring \<times> 'st" where
  "drain parse onEvent buffer st =
     (case index_nl buffer of
        None \<Rightarrow> (buffer, st)
      | Some idx \<Rightarrow>
          (let line = trim (take idx buffer);
               buffer' = drop (idx + 1) buffer
           in if line = [] then drain parse onEvent buffer' st
              else (case parse line of
                      Inr e \<Rightarrow> drain parse onEvent buffer' (onEvent e st)
                    | Inl x \<Rightarrow> drain parse onEvent buffer' st)))"
  by pat_completeness auto
termination
  by (relation "measure (\<lambda>(parse, onEvent, buffer, st). length buffer)")
     (auto dest: index_nl_Some)

declare drain.simps [simp del]

text \<open>
  The outer loop, over the chunks that \<open>reader.read()\<close> delivers until \<open>done\<close>. The
  decoder is in streaming mode, so the chunks are text already: a character cut by the
  network arrives whole with the later chunk.
\<close>

fun read_loop :: "parser \<Rightarrow> (json \<Rightarrow> 'st \<Rightarrow> 'st) \<Rightarrow> jsstring list \<Rightarrow> jsstring \<Rightarrow> 'st \<Rightarrow> jsstring \<times> 'st" where
  "read_loop parse onEvent [] buffer st = (buffer, st)"
| "read_loop parse onEvent (v # rest) buffer st =
     (case drain parse onEvent (buffer @ v) st of
        (buffer', st') \<Rightarrow> read_loop parse onEvent rest buffer' st')"

text \<open>
  The response of \<open>fetch\<close>: \<open>res.ok\<close>, the text of the body for \<open>res.text()\<close>, and the
  chunks of \<open>res.body\<close> (\<open>None\<close> when there is no body).
\<close>

record response =
  ok :: bool
  body_text :: jsstring
  body :: "jsstring list option"

definition streamNdjson :: "parser \<Rightarrow> (json \<Rightarrow> 'st \<Rightarrow> 'st) \<Rightarrow> response \<Rightarrow> 'st \<Rightarrow> exn + 'st" where
  "streamNdjson parse onEvent res st =
     (if \<not> ok res then
        (case extractErrorMessage parse (body_text res) of
           Inl e \<Rightarrow> Inl e
         | Inr m \<Rightarrow> Inl (Error m))
      else (case body res of
              None \<Rightarrow> Inl (Error (js ''No response body (stream unavailable).''))
            | Some chunks \<Rightarrow> Inr (snd (read_loop parse onEvent chunks [] st))))"

text \<open>
  For the examples: what \<open>JSON.parse\<close> does on the texts \<open>1\<close> and \<open>2\<close> and on texts that
  are no JSON.
\<close>

definition parse_12 :: parser where
  "parse_12 l =
     (if l = js ''1'' then Inr (JNumber 1)
      else if l = js ''2'' then Inr (JNumber 2)
      else Inl SyntaxError)"

text \<open>
  Two streams for the examples: one whose last line has no newline after it, and one in
  three chunks with a line that is no JSON, a blank line and a newline at the end.
\<close>

definition stream_12 :: jsstring where
  "stream_12 = js ''1'' @ [nl] @ js ''2''"

definition chunks_1x2 :: "jsstring list" where
  "chunks_1x2 = [js ''1'' @ [nl] @ js ''x'', [nl, nl] @ js '' 2'', [nl]]"

section \<open>The properties, in the words of the specification\<close>

text \<open>
  The lines that end with a newline, and the events among them: a line counts when it
  is not blank and parses once trimmed.
\<close>

definition complete_lines :: "jsstring \<Rightarrow> jsstring list" where
  "complete_lines s = butlast (split_nl s)"

definition events_of :: "parser \<Rightarrow> jsstring list \<Rightarrow> json list" where
  "events_of parse ls =
     List.map_filter (\<lambda>l. case parse (trim l) of Inr e \<Rightarrow> Some e | Inl x \<Rightarrow> None)
       (filter (\<lambda>l. trim l \<noteq> []) ls)"

text \<open>
  The events of a stream as the specification words them: those of all the lines into
  which the newlines split the text, the piece after the last newline too.
\<close>

definition spec_events :: "parser \<Rightarrow> jsstring \<Rightarrow> json list" where
  "spec_events parse s = events_of parse (split_nl s)"

text \<open>
  A line of \<open>t\<close> begins at \<open>i\<close> with the marker of a choice list: \<open>1\<close>, a dot and a
  white-space character, which may be the newline that ends the line.
\<close>

definition marker :: "jsstring \<Rightarrow> nat \<Rightarrow> bool" where
  "marker t i = ((i = 0 \<or> t ! (i - 1) = nl) \<and> starts_one (drop i t))"

text \<open>
  What \<open>/^([1-3])\.\s+(.*)$/\<close> captures on a line, said without the search: the line
  begins with a digit from 1 to 3, a dot and white space, and what follows the white
  space holds no line terminator; that is the payload.
\<close>

definition payload :: "jsstring \<Rightarrow> jsstring option" where
  "payload l =
     (if choice_prefix l \<and> (\<forall>c \<in> set (dropWhile is_ws (drop 2 l)). \<not> is_lt c)
      then Some (dropWhile is_ws (drop 2 l)) else None)"

text \<open>
  Choice extraction as the specification words it: split at the last line that begins
  with the marker, the transcript is what precedes it, trimmed at the end, and the
  choices are the payloads of the first three lines of the rest that match the whole
  expression.
\<close>

definition spec_split :: "jsstring \<Rightarrow> nat option" where
  "spec_split t =
     (case filter (marker t) [0..<length t] of [] \<Rightarrow> None | k # ks \<Rightarrow> Some (last (k # ks)))"

definition spec_transcript :: "jsstring \<Rightarrow> jsstring" where
  "spec_transcript t = (case spec_split t of None \<Rightarrow> t | Some k \<Rightarrow> trimEnd (take k t))"

definition spec_choices :: "jsstring \<Rightarrow> jsstring list" where
  "spec_choices t =
     (case spec_split t of
        None \<Rightarrow> []
      | Some k \<Rightarrow> take 3 (List.map_filter payload (lines_of (drop k t))))"

text \<open>The steps of one session: a chunk is enqueued, an interval comes due, the final
  event registers the finalize closure.\<close>

fun is_session_step :: "step \<Rightarrow> bool" where
  "is_session_step (Event (Chunk text)) = True"
| "is_session_step (Event (Final story)) = True"
| "is_session_step (Tick h) = True"
| "is_session_step x = False"


text \<open>
  No session is open: no timer, no interval, nothing queued or revealed, no finalize
  closure pending. The page is so when the script is loaded, after the finalize closure
  has run and after an error path.
\<close>

definition idle :: "page \<Rightarrow> bool" where
  "idle s =
     (streamTimer s = None \<and> intervals s = [] \<and> streamQueue s = [] \<and> streamRendered s = []
      \<and> pendingFinalizeFn s = None)"

text \<open>
  A session with prefix \<open>p\<close> in which the text \<open>txt\<close> has been enqueued so far and the
  finalize closure has not run: the revealed text and the queue make up \<open>txt\<close>, the one
  interval is that of the typewriter and carries \<open>p\<close> (there is none before the first
  chunk), and a closure is pending only while the queue is not empty.
\<close>

definition session :: "jsstring \<Rightarrow> jsstring \<Rightarrow> page \<Rightarrow> bool" where
  "session p txt s =
     (streamRendered s @ streamQueue s = txt
      \<and> (case streamTimer s of
            None \<Rightarrow> intervals s = [] \<and> txt = []
          | Some h \<Rightarrow> intervals s = [(h, p)])
      \<and> (pendingFinalizeFn s \<noteq> None \<longrightarrow> streamQueue s \<noteq> []))"


text \<open>
  The page of \<open>newStory\<close> when the chunk \<open>abc\<close> and then the final event have arrived
  and no interval has come due yet: the finalize closure waits for the queue to drain.
\<close>

definition waiting_page :: page where
  "waiting_page =
     newStory_onEvent (Final (Some (js ''abc''))) (newStory_onEvent (Chunk (js ''abc'')) init_page)"

text \<open>
  Two stories for the examples: the one of the specification, and one whose first choice
  holds a carriage return in the middle of its line and whose list goes on to a fourth
  line.
\<close>

definition example_story :: jsstring where
  "example_story = js ''Intro line.'' @ [nl] @ js ''1. Go left'' @ [nl] @ js ''2. Go right''"

definition cr_story :: jsstring where
  "cr_story =
     js ''1. a'' @ [13] @ js ''b'' @ [nl] @ js ''2. c'' @ [nl] @ js ''3. d'' @ [nl] @ js ''2. e''"

section \<open>Properties\<close>

subsection \<open>Lemmas on the operations\<close>

lemma take_of_14: "take_of STREAM_MS_PER_CHAR = 2"
  by (simp add: take_of_def STREAM_MS_PER_CHAR_def)

lemma stopTypewriter_simps:
  "streamTimer (stopTypewriter s) = None"
  "streamQueue (stopTypewriter s) = []"
  "streamRendered (stopTypewriter s) = []"
  "pendingFinalizeFn (stopTypewriter s) = pendingFinalizeFn s"
  "pendingFinalStory (stopTypewriter s) = pendingFinalStory s"
  "fn_calls (stopTypewriter s) = fn_calls s"
  "updates (stopTypewriter s) = updates s"
  "currentStoryText (stopTypewriter s) = currentStoryText s"
  "storyEl (stopTypewriter s) = storyEl s"
  "intervals (stopTypewriter s) =
     (case streamTimer s of Some h \<Rightarrow> filter (\<lambda>(i, p). i \<noteq> h) (intervals s) | None \<Rightarrow> intervals s)"
  by (simp_all add: stopTypewriter_def clearInterval_def Let_def split: option.splits)

lemma startTypewriter_simps:
  "streamTimer (startTypewriter p s) = Some (nextHandle s)"
  "streamQueue (startTypewriter p s) = streamQueue s"
  "streamRendered (startTypewriter p s) = []"
  "pendingFinalizeFn (startTypewriter p s) = pendingFinalizeFn s"
  "fn_calls (startTypewriter p s) = fn_calls s"
  "updates (startTypewriter p s) = updates s"
  "nextHandle (startTypewriter p s) = Suc (nextHandle s)"
  "intervals (startTypewriter p s) =
     (case streamTimer s of Some h \<Rightarrow> filter (\<lambda>(i, p). i \<noteq> h) (intervals s) | None \<Rightarrow> intervals s)
       @ [(nextHandle s, p)]"
  by (simp_all add: startTypewriter_def setInterval_def clearInterval_def Let_def split: option.splits)

lemma timers_ok_clear:
  "timers_ok s \<Longrightarrow>
   (case streamTimer s of Some h \<Rightarrow> filter (\<lambda>(i, p). i \<noteq> h) (intervals s) | None \<Rightarrow> intervals s) = []"
  by (cases "intervals s"; cases "streamTimer s") (auto simp: timers_ok_def)

lemma timers_ok_start: "timers_ok s \<Longrightarrow> timers_ok (startTypewriter p s)"
  using timers_ok_clear[of s] by (simp add: timers_ok_def startTypewriter_simps)

lemma timers_ok_stop: "timers_ok s \<Longrightarrow> timers_ok (stopTypewriter s)"
  using timers_ok_clear[of s] by (simp add: timers_ok_def stopTypewriter_simps)

lemma stopTypewriter_commute [simp]:
  "stopTypewriter (s\<lparr>pendingFinalizeFn := v\<rparr>) = (stopTypewriter s)\<lparr>pendingFinalizeFn := v\<rparr>"
  "stopTypewriter (s\<lparr>fn_calls := w\<rparr>) = (stopTypewriter s)\<lparr>fn_calls := w\<rparr>"
  by (cases "streamTimer s"; simp add: stopTypewriter_def clearInterval_def)+

lemma finalizeStory_simps:
  "streamTimer (finalizeStory s) = None"
  "streamQueue (finalizeStory s) = []"
  "streamRendered (finalizeStory s) = []"
  "pendingFinalizeFn (finalizeStory s) = pendingFinalizeFn s"
  "fn_calls (finalizeStory s) = fn_calls s"
  "updates (finalizeStory s) = updates s"
  "currentStoryText (finalizeStory s) = (case pendingFinalStory s of Some x \<Rightarrow> x | None \<Rightarrow> [])"
  "storyEl (finalizeStory s) = renderStory (case pendingFinalStory s of Some x \<Rightarrow> x | None \<Rightarrow> [])"
  "intervals (finalizeStory s) = intervals (stopTypewriter s)"
  by (simp_all add: finalizeStory_def Let_def stopTypewriter_simps)

lemma call_fn_simps:
  "streamTimer (call_fn fn s) = None"
  "streamQueue (call_fn fn s) = []"
  "streamRendered (call_fn fn s) = []"
  "pendingFinalizeFn (call_fn fn s) = pendingFinalizeFn s"
  "fn_calls (call_fn fn s) = fn_calls s @ [(streamQueue s, streamRendered s)]"
  "updates (call_fn fn s) = updates s"
  "currentStoryText (call_fn fn s) = (case pendingFinalStory s of Some x \<Rightarrow> x | None \<Rightarrow> [])"
  "storyEl (call_fn fn s) = renderStory (case pendingFinalStory s of Some x \<Rightarrow> x | None \<Rightarrow> [])"
  "intervals (call_fn fn s) = intervals (stopTypewriter s)"
  by (cases fn; simp add: call_fn_def finalizeStory_simps)+

lemma fire_pending_None: "pendingFinalizeFn s = None \<Longrightarrow> fire_pending s = s"
  by (simp add: fire_pending_def)

lemma fire_pending_Some:
  assumes "pendingFinalizeFn s = Some fn"
  shows "streamTimer (fire_pending s) = None"
    "streamQueue (fire_pending s) = []"
    "streamRendered (fire_pending s) = []"
    "pendingFinalizeFn (fire_pending s) = None"
    "fn_calls (fire_pending s) = fn_calls s @ [(streamQueue s, streamRendered s)]"
    "updates (fire_pending s) = updates s"
    "currentStoryText (fire_pending s) = (case pendingFinalStory s of Some x \<Rightarrow> x | None \<Rightarrow> [])"
    "storyEl (fire_pending s) = renderStory (case pendingFinalStory s of Some x \<Rightarrow> x | None \<Rightarrow> [])"
    "intervals (fire_pending s) = intervals (stopTypewriter s)"
  using assms by (simp_all add: fire_pending_def call_fn_simps)

lemma cancel_simps:
  "streamTimer (cancel s) = None"
  "streamQueue (cancel s) = []"
  "streamRendered (cancel s) = []"
  "pendingFinalizeFn (cancel s) = None"
  "pendingFinalStory (cancel s) = None"
  "fn_calls (cancel s) = fn_calls s"
  "updates (cancel s) = updates s"
  "intervals (cancel s) = intervals (stopTypewriter s)"
  by (simp_all add: cancel_def Let_def stopTypewriter_simps)

lemma timers_ok_cancel: "timers_ok s \<Longrightarrow> intervals (cancel s) = []"
  using timers_ok_clear[of s] by (simp add: cancel_simps stopTypewriter_simps)

lemma tick_no_interval: "intervals s = [] \<Longrightarrow> tick h s = s"
  by (simp add: tick_def)

lemma ticks_no_interval: "intervals s = [] \<Longrightarrow> fold tick hs s = s"
  by (induction hs) (simp_all add: tick_no_interval)

subsection \<open>Starting the typewriter\<close>

text \<open>
  Claim C1 says that \<open>startTypewriter\<close> returns with \<open>streamQueue\<close> empty. It does not
  touch the queue: both callers append the first chunk to the queue and call
  \<open>startTypewriter\<close> afterwards, so the queue holds that chunk on return.
\<close>

theorem startTypewriter_queue_counterexample:
  "streamQueue (startTypewriter [] (init_page\<lparr>streamQueue := js ''ab''\<rparr>)) \<noteq> []"
  by (simp add: startTypewriter_simps js_def)

text \<open>
  Claim C1, as the code has it: on return from \<open>startTypewriter\<close> the revealed text
  \<open>streamRendered\<close> is empty and \<open>streamQueue\<close> is what it was (so empty if it was empty
  before); the interval of the former \<open>streamTimer\<close> is cleared, so that where the
  typewriter owns every running interval exactly the new one runs. Two calls in a row
  leave the queue as it was, the revealed text empty and one running interval.
\<close>

theorem startTypewriter_resets:
  "streamRendered (startTypewriter p s) = []
   \<and> streamQueue (startTypewriter p s) = streamQueue s
   \<and> (timers_ok s \<longrightarrow> intervals (startTypewriter p s) = [(nextHandle s, p)]
        \<and> streamTimer (startTypewriter p s) = Some (nextHandle s))
   \<and> streamRendered (startTypewriter p2 (startTypewriter p s)) = []
   \<and> streamQueue (startTypewriter p2 (startTypewriter p s)) = streamQueue s
   \<and> (timers_ok s \<longrightarrow> length (intervals (startTypewriter p2 (startTypewriter p s))) = 1
        \<and> intervals (startTypewriter p2 (startTypewriter p s)) = [(Suc (nextHandle s), p2)])"
  using timers_ok_clear[of s] timers_ok_clear[OF timers_ok_start, of s p]
  by (simp add: startTypewriter_simps)

theorem startTypewriter_resets_witness:
  "timers_ok init_page
   \<and> streamRendered (startTypewriter [] (startTypewriter [] init_page)) = []
   \<and> streamQueue (startTypewriter [] (startTypewriter [] init_page)) = []
   \<and> intervals (startTypewriter [] (startTypewriter [] init_page)) = [(2, [])]"
  using startTypewriter_resets[of "[]" init_page "[]"]
  by (simp add: timers_ok_def init_page_def)

subsection \<open>A final event that finds the queue empty\<close>

text \<open>
  Claim C6: when the \<open>final\<close> event arrives and \<open>streamQueue\<close> is empty, the handler
  runs the finalize closure itself, before it returns: the closure has been called
  once more (with the queue empty), \<open>pendingFinalizeFn\<close> is \<open>null\<close> again, the timer is
  stopped and the final story is the current story and is rendered.
\<close>

theorem final_with_empty_queue_runs_now:
  "streamQueue s = [] \<Longrightarrow>
   fn_calls (streamHandler prefix errHead (Final story) s) = fn_calls s @ [([], streamRendered s)]
   \<and> pendingFinalizeFn (streamHandler prefix errHead (Final story) s) = None
   \<and> streamTimer (streamHandler prefix errHead (Final story) s) = None
   \<and> currentStoryText (streamHandler prefix errHead (Final story) s) = opt_or story []
   \<and> storyEl (streamHandler prefix errHead (Final story) s) = renderStory (opt_or story [])"
  by (simp add: streamHandler_def Let_def fire_pending_Some[where fn = FinalizeStory])

theorem final_with_empty_queue_runs_now_witness:
  "streamQueue init_page = []
   \<and> fn_calls (newStory_onEvent (Final (Some (js ''The end.''))) init_page) = [([], [])]
   \<and> pendingFinalizeFn (newStory_onEvent (Final (Some (js ''The end.''))) init_page) = None
   \<and> currentStoryText (newStory_onEvent (Final (Some (js ''The end.''))) init_page) = js ''The end.''"
  using final_with_empty_queue_runs_now[of init_page "[]" "js ''[Error]'' @ [nl]" "Some (js ''The end.'')"]
  by (simp add: newStory_onEvent_def init_page_def opt_or_def or_else_def js_def)

subsection \<open>A blank action\<close>

text \<open>
  Claim C10: when the action field holds nothing but white space, \<open>sendAction\<close> returns
  at once and the page is what it was: no request, the buttons, the field, the story,
  the queue and the pending finalize closure unchanged.
\<close>

theorem sendAction_blank_input:
  "trim (actionEl_value s) = [] \<Longrightarrow> sendAction s = s"
  by (simp add: sendAction_def)

theorem sendAction_blank_input_witness:
  "trim (actionEl_value (init_page\<lparr>actionEl_value := js ''  ''\<rparr>)) = []
   \<and> sendAction (init_page\<lparr>actionEl_value := js ''  ''\<rparr>) = init_page\<lparr>actionEl_value := js ''  ''\<rparr>"
  using sendAction_blank_input[of "init_page\<lparr>actionEl_value := js ''  ''\<rparr>"]
  by (simp add: trim_def trimEnd_def trimStart_def js_def is_ws_def)

subsection \<open>Lemmas on ticks and steps\<close>

lemma timer_callback_no_pending:
  "pendingFinalizeFn s = None \<Longrightarrow>
   timer_callback p s =
     (if streamQueue s = [] then s
      else onUpdate (p @ streamRendered s @ take 2 (streamQueue s))
             (s\<lparr>streamQueue := drop 2 (streamQueue s),
                streamRendered := streamRendered s @ take 2 (streamQueue s)\<rparr>))"
  by (simp add: timer_callback_def Let_def take_of_14 fire_pending_None onUpdate_def)

lemma onUpdate_simps:
  "streamTimer (onUpdate u s) = streamTimer s"
  "streamQueue (onUpdate u s) = streamQueue s"
  "streamRendered (onUpdate u s) = streamRendered s"
  "pendingFinalizeFn (onUpdate u s) = pendingFinalizeFn s"
  "pendingFinalStory (onUpdate u s) = pendingFinalStory s"
  "fn_calls (onUpdate u s) = fn_calls s"
  "updates (onUpdate u s) = updates s @ [u]"
  "intervals (onUpdate u s) = intervals s"
  by (simp_all add: onUpdate_def)

lemma tick_no_pending:
  assumes "pendingFinalizeFn s = None" "map_of (intervals s) h = Some p"
  shows "pendingFinalizeFn (tick h s) = None"
    "map_of (intervals (tick h s)) h = Some p"
    "fn_calls (tick h s) = fn_calls s"
    "streamQueue (tick h s) = drop 2 (streamQueue s)"
    "streamRendered (tick h s) = streamRendered s @ take 2 (streamQueue s)"
  using assms by (simp_all add: tick_def timer_callback_no_pending onUpdate_simps)

lemma ticks_no_pending:
  "pendingFinalizeFn s = None \<Longrightarrow> map_of (intervals s) h = Some p \<Longrightarrow>
   streamRendered ((tick h ^^ N) s) = streamRendered s @ take (N * 2) (streamQueue s)
   \<and> streamQueue ((tick h ^^ N) s) = drop (N * 2) (streamQueue s)"
proof (induction N arbitrary: s)
  case 0
  then show ?case by simp
next
  case (Suc N)
  have "(tick h ^^ Suc N) s = (tick h ^^ N) (tick h s)"
    by (simp add: funpow_swap1)
  moreover note Suc.IH[OF tick_no_pending(1,2)[OF Suc.prems]]
  moreover have "take (Suc (Suc (N * 2))) (streamQueue s)
      = take 2 (streamQueue s) @ take (N * 2) (drop 2 (streamQueue s))"
    using take_add[of 2 "N * 2" "streamQueue s"] by simp
  ultimately show ?case
    by (simp add: tick_no_pending(4,5)[OF Suc.prems])
qed

lemma fire_pending_updates: "updates (fire_pending s) = updates s"
  by (cases "pendingFinalizeFn s") (simp_all add: fire_pending_None fire_pending_Some)

lemma fire_pending_queue: "streamQueue s = [] \<Longrightarrow> streamQueue (fire_pending s) = []"
  by (cases "pendingFinalizeFn s") (simp_all add: fire_pending_None fire_pending_Some)

lemma tick_nonempty:
  assumes "map_of (intervals s) h = Some p" "streamQueue s \<noteq> []"
  shows "streamQueue (tick h s) = drop 2 (streamQueue s)"
    "last (updates (tick h s)) = p @ streamRendered s @ take 2 (streamQueue s)"
proof -
  define s3 where "s3 = onUpdate (p @ streamRendered s @ take 2 (streamQueue s))
             (s\<lparr>streamQueue := drop 2 (streamQueue s),
                streamRendered := streamRendered s @ take 2 (streamQueue s)\<rparr>)"
  have t: "tick h s = (if streamQueue s3 = [] then fire_pending s3 else s3)"
    using assms by (simp add: s3_def tick_def timer_callback_def Let_def take_of_14)
  have q: "streamQueue s3 = drop 2 (streamQueue s)"
    and u: "updates s3 = updates s @ [p @ streamRendered s @ take 2 (streamQueue s)]"
    by (simp_all add: s3_def onUpdate_simps)
  show "streamQueue (tick h s) = drop 2 (streamQueue s)"
  proof (cases "streamQueue s3 = []")
    case True
    with fire_pending_queue[OF True] q show ?thesis by (simp add: t)
  next
    case False
    with q show ?thesis by (simp add: t)
  qed
  show "last (updates (tick h s)) = p @ streamRendered s @ take 2 (streamQueue s)"
    by (simp add: t fire_pending_updates u)
qed

lemma chunk_first:
  "newStory_onEvent (Chunk t) init_page
     = init_page\<lparr>streamQueue := t, streamTimer := Some 1, intervals := [(1, [])], nextHandle := 2\<rparr>"
  by (simp add: newStory_onEvent_def streamHandler_def init_page_def Let_def
      startTypewriter_def setInterval_def)

lemma streamHandler_not_final:
  "pendingFinalizeFn s = None \<Longrightarrow> \<forall>story. e \<noteq> Final story \<Longrightarrow>
   pendingFinalizeFn (streamHandler p eh e s) = None
   \<and> fn_calls (streamHandler p eh e s) = fn_calls s"
  by (cases e) (simp_all add: streamHandler_def Let_def startTypewriter_simps cancel_simps)

lemma tick_pending_None:
  "pendingFinalizeFn s = None \<Longrightarrow>
   pendingFinalizeFn (tick h s) = None \<and> fn_calls (tick h s) = fn_calls s"
  by (cases "map_of (intervals s) h")
     (simp_all add: tick_def timer_callback_no_pending onUpdate_simps)

lemma do_step_not_final:
  assumes "pendingFinalizeFn s = None" "\<not> is_final x"
  shows "pendingFinalizeFn (do_step p eh x s) = None
    \<and> fn_calls (do_step p eh x s) = fn_calls s"
proof (cases x)
  case (Event e)
  with assms(2) have "\<forall>story. e \<noteq> Final story" by auto
  with Event streamHandler_not_final[OF assms(1) this] show ?thesis
    by (simp add: do_step_def)
next
  case (Tick h)
  with tick_pending_None[OF assms(1)] show ?thesis by (simp add: do_step_def)
qed

lemma run_Nil [simp]: "run p eh [] s = s"
  by (simp add: run_def)

lemma run_Cons [simp]: "run p eh (x # xs) s = run p eh xs (do_step p eh x s)"
  by (simp add: run_def)

lemma run_append: "run p eh (xs @ ys) s = run p eh ys (run p eh xs s)"
  by (simp add: run_def)

lemma run_not_final:
  "pendingFinalizeFn s = None \<Longrightarrow> list_all (\<lambda>x. \<not> is_final x) xs \<Longrightarrow>
   pendingFinalizeFn (run p eh xs s) = None \<and> fn_calls (run p eh xs s) = fn_calls s"
proof (induction xs arbitrary: s)
  case Nil
  then show ?case by simp
next
  case (Cons x xs)
  from Cons.prems have nf: "\<not> is_final x" and rest: "list_all (\<lambda>x. \<not> is_final x) xs"
    by simp_all
  from do_step_not_final[OF Cons.prems(1) nf, of p eh]
  have p: "pendingFinalizeFn (do_step p eh x s) = None"
    and f: "fn_calls (do_step p eh x s) = fn_calls s" by simp_all
  from Cons.IH[OF p rest] f show ?case by simp
qed

lemma run_ticks_idle:
  "intervals s = [] \<Longrightarrow> list_all is_tick xs \<Longrightarrow> run p eh xs s = s"
proof (induction xs)
  case Nil
  then show ?case by simp
next
  case (Cons x xs)
  then obtain h where "x = Tick h" by (cases x) auto
  with Cons show ?case by (simp add: do_step_def tick_no_interval)
qed

lemma waiting_page_eq:
  "waiting_page
     = init_page\<lparr>streamQueue := js ''abc'', streamTimer := Some 1,
         pendingFinalStory := Some (js ''abc''), pendingFinalizeFn := Some FinalizeStory,
         intervals := [(1, [])], nextHandle := 2\<rparr>"
  unfolding waiting_page_def chunk_first
  by (simp add: newStory_onEvent_def streamHandler_def Let_def opt_or_def or_else_def js_def
      init_page_def)

subsection \<open>Lemmas on a run of ticks\<close>

lemma fire_pending_cleared: "pendingFinalizeFn (fire_pending s) = None"
  by (cases "pendingFinalizeFn s") (simp_all add: fire_pending_None fire_pending_Some)

lemma tick_done: "streamQueue s = [] \<Longrightarrow> pendingFinalizeFn s = None \<Longrightarrow> tick h s = s"
  by (cases "map_of (intervals s) h") (simp_all add: tick_def timer_callback_no_pending)

lemma ticks_done:
  "streamQueue s = [] \<Longrightarrow> pendingFinalizeFn s = None \<Longrightarrow> (tick h ^^ N) s = s"
  by (induction N) (simp_all add: tick_done)

lemma tick_step:
  assumes "map_of (intervals s) h = Some p" "streamQueue s \<noteq> []"
  shows "(length (streamQueue s) \<le> 2 \<longrightarrow>
        streamQueue (tick h s) = [] \<and> pendingFinalizeFn (tick h s) = None)
    \<and> (2 < length (streamQueue s) \<longrightarrow>
        map_of (intervals (tick h s)) h = Some p
        \<and> pendingFinalizeFn (tick h s) = pendingFinalizeFn s
        \<and> streamQueue (tick h s) = drop 2 (streamQueue s)
        \<and> streamRendered (tick h s) = streamRendered s @ take 2 (streamQueue s))"
proof -
  define s3 where "s3 = onUpdate (p @ streamRendered s @ take 2 (streamQueue s))
             (s\<lparr>streamQueue := drop 2 (streamQueue s),
                streamRendered := streamRendered s @ take 2 (streamQueue s)\<rparr>)"
  have t: "tick h s = (if streamQueue s3 = [] then fire_pending s3 else s3)"
    using assms by (simp add: s3_def tick_def timer_callback_def Let_def take_of_14)
  have q: "streamQueue s3 = drop 2 (streamQueue s)"
    and r: "streamRendered s3 = streamRendered s @ take 2 (streamQueue s)"
    and iv: "intervals s3 = intervals s"
    and pf: "pendingFinalizeFn s3 = pendingFinalizeFn s"
    by (simp_all add: s3_def onUpdate_simps)
  have a: "streamQueue (tick h s) = [] \<and> pendingFinalizeFn (tick h s) = None"
    if "length (streamQueue s) \<le> 2"
  proof -
    from that have e: "streamQueue s3 = []" by (simp add: q)
    with fire_pending_queue[OF e] fire_pending_cleared[of s3] show ?thesis by (simp add: t)
  qed
  have b: "map_of (intervals (tick h s)) h = Some p
        \<and> pendingFinalizeFn (tick h s) = pendingFinalizeFn s
        \<and> streamQueue (tick h s) = drop 2 (streamQueue s)
        \<and> streamRendered (tick h s) = streamRendered s @ take 2 (streamQueue s)"
    if "2 < length (streamQueue s)"
  proof -
    from that have "streamQueue s3 \<noteq> []" by (simp add: q)
    with assms(1) q r iv pf show ?thesis by (simp add: t)
  qed
  from a b show ?thesis by blast
qed

lemma ticks_last_update:
  "map_of (intervals s) h = Some p \<Longrightarrow> streamQueue s \<noteq> [] \<Longrightarrow>
   last (updates ((tick h ^^ Suc N) s))
     = p @ streamRendered s @ take (Suc N * 2) (streamQueue s)"
proof (induction N arbitrary: s)
  case 0
  from tick_nonempty(2)[OF 0] show ?case by simp
next
  case (Suc N)
  have sw: "(tick h ^^ Suc (Suc N)) s = (tick h ^^ Suc N) (tick h s)"
    by (simp only: funpow_Suc_right o_apply)
  note st = tick_step[OF Suc.prems]
  show ?case
  proof (cases "length (streamQueue s) \<le> 2")
    case True
    with st have "streamQueue (tick h s) = []" "pendingFinalizeFn (tick h s) = None"
      by simp_all
    from ticks_done[OF this] have "(tick h ^^ Suc N) (tick h s) = tick h s" .
    with tick_nonempty(2)[OF Suc.prems] True show ?thesis by (simp only: sw) simp
  next
    case False
    with st have iv: "map_of (intervals (tick h s)) h = Some p"
      and q: "streamQueue (tick h s) = drop 2 (streamQueue s)"
      and r: "streamRendered (tick h s) = streamRendered s @ take 2 (streamQueue s)"
      by simp_all
    from False q have ne: "streamQueue (tick h s) \<noteq> []" by simp
    have tk: "take (Suc (Suc N) * 2) (streamQueue s)
        = take 2 (streamQueue s) @ take (Suc N * 2) (drop 2 (streamQueue s))"
      using take_add[of 2 "Suc N * 2" "streamQueue s"] by simp
    from Suc.IH[OF iv ne] show ?thesis by (simp only: sw q r tk append_assoc)
  qed
qed

lemma ticks_before_drain:
  "map_of (intervals s) h = Some p \<Longrightarrow> N * 2 < length (streamQueue s) \<Longrightarrow>
   streamRendered ((tick h ^^ N) s) = streamRendered s @ take (N * 2) (streamQueue s)
   \<and> streamQueue ((tick h ^^ N) s) = drop (N * 2) (streamQueue s)
   \<and> pendingFinalizeFn ((tick h ^^ N) s) = pendingFinalizeFn s"
proof (induction N arbitrary: s)
  case 0
  then show ?case by simp
next
  case (Suc N)
  have sw: "(tick h ^^ Suc N) s = (tick h ^^ N) (tick h s)"
    by (simp only: funpow_Suc_right o_apply)
  from Suc.prems(2) have long: "2 < length (streamQueue s)" and ne: "streamQueue s \<noteq> []"
    by auto
  from tick_step[OF Suc.prems(1) ne] long
  have iv: "map_of (intervals (tick h s)) h = Some p"
    and pf: "pendingFinalizeFn (tick h s) = pendingFinalizeFn s"
    and q: "streamQueue (tick h s) = drop 2 (streamQueue s)"
    and r: "streamRendered (tick h s) = streamRendered s @ take 2 (streamQueue s)"
    by simp_all
  from Suc.prems(2) q have "N * 2 < length (streamQueue (tick h s))" by simp
  from Suc.IH[OF iv this]
  have "streamRendered ((tick h ^^ N) (tick h s))
      = streamRendered (tick h s) @ take (N * 2) (streamQueue (tick h s))"
    "streamQueue ((tick h ^^ N) (tick h s)) = drop (N * 2) (streamQueue (tick h s))"
    "pendingFinalizeFn ((tick h ^^ N) (tick h s)) = pendingFinalizeFn (tick h s)"
    by simp_all
  moreover have "take (Suc N * 2) (streamQueue s)
      = take 2 (streamQueue s) @ take (N * 2) (drop 2 (streamQueue s))"
    using take_add[of 2 "N * 2" "streamQueue s"] by simp
  ultimately show ?case unfolding sw by (simp add: q r pf)
qed

lemma tick_updates:
  assumes "map_of (intervals s) h = Some p" "streamQueue s \<noteq> []"
  shows "updates (tick h s) = updates s @ [p @ streamRendered s @ take 2 (streamQueue s)]"
proof -
  define s3 where "s3 = onUpdate (p @ streamRendered s @ take 2 (streamQueue s))
             (s\<lparr>streamQueue := drop 2 (streamQueue s),
                streamRendered := streamRendered s @ take 2 (streamQueue s)\<rparr>)"
  have t: "tick h s = (if streamQueue s3 = [] then fire_pending s3 else s3)"
    using assms by (simp add: s3_def tick_def timer_callback_def Let_def take_of_14)
  have u: "updates s3 = updates s @ [p @ streamRendered s @ take 2 (streamQueue s)]"
    by (simp add: s3_def onUpdate_simps)
  show ?thesis by (simp add: t fire_pending_updates u)
qed

lemma tick_empty:
  "streamQueue s = [] \<Longrightarrow> streamQueue (tick h s) = [] \<and> updates (tick h s) = updates s"
  by (cases "map_of (intervals s) h")
     (simp_all add: tick_def timer_callback_def fire_pending_queue fire_pending_updates)

lemma ticks_empty: "streamQueue s = [] \<Longrightarrow> updates ((tick h ^^ N) s) = updates s"
proof (induction N arbitrary: s)
  case 0
  then show ?case by simp
next
  case (Suc N)
  have sw: "(tick h ^^ Suc N) s = (tick h ^^ N) (tick h s)"
    by (simp only: funpow_Suc_right o_apply)
  from tick_empty[OF Suc.prems, of h] Suc.IH[of "tick h s"] show ?case
    unfolding sw by simp
qed

lemma ticks_updates:
  "map_of (intervals s) h = Some p \<Longrightarrow>
   updates ((tick h ^^ N) s)
     = updates s
       @ map (\<lambda>k. p @ streamRendered s @ take (k * 2) (streamQueue s))
           [1..<Suc (min N ((length (streamQueue s) + 1) div 2))]"
proof (induction N arbitrary: s)
  case 0
  then show ?case by simp
next
  case (Suc N)
  have sw: "(tick h ^^ Suc N) s = (tick h ^^ N) (tick h s)"
    by (simp only: funpow_Suc_right o_apply)
  let ?q = "streamQueue s" and ?r = "streamRendered s"
  show ?case
  proof (cases "?q = []")
    case True
    from ticks_empty[OF True, where h = h and N = "Suc N"] True show ?thesis by simp
  next
    case False
    note up = tick_updates[OF Suc.prems False]
    note st = tick_step[OF Suc.prems False]
    show ?thesis
    proof (cases "length ?q \<le> 2")
      case True
      with st have "streamQueue (tick h s) = []" by simp
      from ticks_empty[OF this, where h = h and N = N] up
      have a: "updates ((tick h ^^ Suc N) s) = updates s @ [p @ ?r @ take 2 ?q]"
        unfolding sw by simp
      from False have "length ?q \<noteq> 0" by simp
      with True have "(length ?q + 1) div 2 = 1" by presburger
      then have "[1..<Suc (min (Suc N) ((length ?q + 1) div 2))] = [1]" by simp
      with a show ?thesis by simp
    next
      case long: False
      with st have iv: "map_of (intervals (tick h s)) h = Some p"
        and q: "streamQueue (tick h s) = drop 2 ?q"
        and r: "streamRendered (tick h s) = ?r @ take 2 ?q"
        by simp_all
      define m where "m = min N ((length ?q - 2 + 1) div 2)"
      have m': "min (Suc N) ((length ?q + 1) div 2) = Suc m"
        using long unfolding m_def by (auto simp: min_def) 
      have tk: "take 2 ?q @ take (k * 2) (drop 2 ?q) = take (Suc k * 2) ?q" for k
        using take_add[of 2 "k * 2" ?q] by simp
      let ?f = "\<lambda>k. p @ ?r @ take (k * 2) ?q"
      from Suc.IH[OF iv]
      have a: "updates ((tick h ^^ Suc N) s)
          = updates s @ [?f (Suc 0)] @ map (\<lambda>k. ?f (Suc k)) [Suc 0..<Suc m]"
        unfolding sw by (simp add: q r up m_def tk)
      have b: "map (\<lambda>k. ?f (Suc k)) [Suc 0..<Suc m] = map ?f [Suc (Suc 0)..<Suc (Suc m)]"
        using map_Suc_upt[of "Suc 0" "Suc m"] map_map[of ?f Suc "[Suc 0..<Suc m]"]
        by (simp only: comp_def)
      have c: "[Suc 0..<Suc (Suc m)] = Suc 0 # [Suc (Suc 0)..<Suc (Suc m)]"
        by (rule upt_conv_Cons) simp
      have "updates ((tick h ^^ Suc N) s) = updates s @ map ?f [Suc 0..<Suc (Suc m)]"
        by (simp only: a b c list.map append_Cons append_Nil)
      then have "updates ((tick h ^^ Suc N) s) = updates s @ map ?f [1..<Suc (Suc m)]"
        by (simp only: One_nat_def)
      then show ?thesis by (simp only: m')
    qed
  qed
qed

subsection \<open>The pace of the reveal\<close>

text \<open>
  Claim C5 says that a tick with a non-empty queue removes exactly
  \<open>max(1, floor(30 / periodMs))\<close> characters, two for the period of 14 ms. With one
  character in the queue \<open>slice(0, take)\<close> has one character to remove.
\<close>

theorem tick_exactly_two_counterexample:
  "length (streamQueue (newStory_onEvent (Chunk (js ''a'')) init_page))
     - length (streamQueue (tick 1 (newStory_onEvent (Chunk (js ''a'')) init_page)))
   \<noteq> take_of STREAM_MS_PER_CHAR"
  by (simp add: newStory_onEvent_def streamHandler_def init_page_def js_def Let_def
      startTypewriter_def setInterval_def tick_def timer_callback_def take_of_14
      onUpdate_def fire_pending_def)

text \<open>
  Claim C5, as the code has it: \<open>take\<close> is \<open>max(1, floor(30 / periodMs))\<close>, which is 2 for the
  period of 14 ms, and a tick of the running interval with a non-empty queue removes the
  first \<open>take\<close> characters of the queue, or all of them when the queue is shorter, and
  hands them to \<open>onUpdate\<close> behind the prefix and the text revealed before. So \<open>N\<close> ticks
  call \<open>onUpdate\<close> once for each tick that finds the queue not empty, the \<open>k\<close>th call with
  the first \<open>2 k\<close> characters of the queue revealed, and after them the revealed length
  has grown by \<open>min(L, 2 N)\<close> for a queue of length \<open>L\<close>, whether a finalize closure is
  pending or not. The variable \<open>streamRendered\<close> holds the revealed text as long as no
  closure is pending or the queue has not been drained.
\<close>

theorem tick_reveals_two:
  "map_of (intervals s) h = Some p \<Longrightarrow>
   take_of STREAM_MS_PER_CHAR = 2
   \<and> (streamQueue s \<noteq> [] \<longrightarrow>
        streamQueue (tick h s) = drop (take_of STREAM_MS_PER_CHAR) (streamQueue s)
        \<and> length (streamQueue s) - length (streamQueue (tick h s))
            = min (take_of STREAM_MS_PER_CHAR) (length (streamQueue s))
        \<and> last (updates (tick h s))
            = p @ streamRendered s @ take (take_of STREAM_MS_PER_CHAR) (streamQueue s))
   \<and> updates ((tick h ^^ N) s)
       = updates s
         @ map (\<lambda>k. p @ streamRendered s @ take (k * 2) (streamQueue s))
             [1..<Suc (min N ((length (streamQueue s) + 1) div 2))]
   \<and> (streamQueue s \<noteq> [] \<and> 0 < N \<longrightarrow>
        last (updates ((tick h ^^ N) s)) = p @ streamRendered s @ take (N * 2) (streamQueue s)
        \<and> length (last (updates ((tick h ^^ N) s)))
            = length p + length (streamRendered s) + min (length (streamQueue s)) (N * 2))
   \<and> (pendingFinalizeFn s = None \<or> N * 2 < length (streamQueue s) \<longrightarrow>
        streamRendered ((tick h ^^ N) s) = streamRendered s @ take (N * 2) (streamQueue s)
        \<and> streamQueue ((tick h ^^ N) s) = drop (N * 2) (streamQueue s)
        \<and> length (streamRendered ((tick h ^^ N) s))
            = length (streamRendered s) + min (length (streamQueue s)) (N * 2))"
proof -
  assume iv: "map_of (intervals s) h = Some p"
  have one: "streamQueue (tick h s) = drop (take_of STREAM_MS_PER_CHAR) (streamQueue s)
        \<and> length (streamQueue s) - length (streamQueue (tick h s))
            = min (take_of STREAM_MS_PER_CHAR) (length (streamQueue s))
        \<and> last (updates (tick h s))
            = p @ streamRendered s @ take (take_of STREAM_MS_PER_CHAR) (streamQueue s)"
    if "streamQueue s \<noteq> []"
    using tick_nonempty[OF iv that] by (auto simp: take_of_14 min_def)
  have shown: "last (updates ((tick h ^^ N) s)) = p @ streamRendered s @ take (N * 2) (streamQueue s)
        \<and> length (last (updates ((tick h ^^ N) s)))
            = length p + length (streamRendered s) + min (length (streamQueue s)) (N * 2)"
    if "streamQueue s \<noteq> [] \<and> 0 < N"
  proof -
    from that obtain M where N: "N = Suc M" by (cases N) auto
    from that have ne: "streamQueue s \<noteq> []" by simp
    from ticks_last_update[OF iv ne, of M]
    have "last (updates ((tick h ^^ N) s)) = p @ streamRendered s @ take (N * 2) (streamQueue s)"
      by (simp only: N)
    then show ?thesis by simp
  qed
  have var: "streamRendered ((tick h ^^ N) s) = streamRendered s @ take (N * 2) (streamQueue s)
        \<and> streamQueue ((tick h ^^ N) s) = drop (N * 2) (streamQueue s)
        \<and> length (streamRendered ((tick h ^^ N) s))
            = length (streamRendered s) + min (length (streamQueue s)) (N * 2)"
    if "pendingFinalizeFn s = None \<or> N * 2 < length (streamQueue s)"
    using that
  proof
    assume "pendingFinalizeFn s = None"
    from ticks_no_pending[OF this iv, of N] show ?thesis by simp
  next
    assume "N * 2 < length (streamQueue s)"
    from ticks_before_drain[OF iv this] show ?thesis by simp
  qed
  from one shown var ticks_updates[OF iv, of N] show ?thesis
    by (simp only: take_of_14) blast
qed

theorem tick_reveals_two_witness:
  "map_of (intervals (newStory_onEvent (Chunk (js ''abcde'')) init_page)) 1 = Some []
   \<and> pendingFinalizeFn (newStory_onEvent (Chunk (js ''abcde'')) init_page) = None
   \<and> streamRendered ((tick 1 ^^ 2) (newStory_onEvent (Chunk (js ''abcde'')) init_page)) = js ''abcd''
   \<and> streamQueue ((tick 1 ^^ 2) (newStory_onEvent (Chunk (js ''abcde'')) init_page)) = js ''e''
   \<and> length (streamRendered ((tick 1 ^^ 3) (newStory_onEvent (Chunk (js ''abcde'')) init_page))) = 5
   \<and> map_of (intervals waiting_page) 1 = Some []
   \<and> streamQueue waiting_page \<noteq> []
   \<and> pendingFinalizeFn waiting_page \<noteq> None
   \<and> updates ((tick 1 ^^ 5) waiting_page) = [js ''ab'', js ''abc'']
   \<and> last (updates ((tick 1 ^^ 2) waiting_page)) = js ''abc''
   \<and> length (last (updates ((tick 1 ^^ 2) waiting_page))) = min 3 (2 * 2)"
proof -
  let ?s = "newStory_onEvent (Chunk (js ''abcde'')) init_page"
  have h: "map_of (intervals ?s) 1 = Some []"
    by (simp add: chunk_first)
  have n: "pendingFinalizeFn ?s = None"
    unfolding chunk_first by (simp add: init_page_def)
  have q: "streamQueue ?s = js ''abcde''" and r: "streamRendered ?s = []"
    unfolding chunk_first by (simp_all add: init_page_def)
  from tick_reveals_two[OF h, of 2] n
  have two: "streamRendered ((tick 1 ^^ 2) ?s) = streamRendered ?s @ take (2 * 2) (streamQueue ?s)"
    "streamQueue ((tick 1 ^^ 2) ?s) = drop (2 * 2) (streamQueue ?s)"
    by blast+
  from tick_reveals_two[OF h, of 3] n
  have three: "length (streamRendered ((tick 1 ^^ 3) ?s))
      = length (streamRendered ?s) + min (length (streamQueue ?s)) (3 * 2)"
    by blast
  have wh: "map_of (intervals waiting_page) 1 = Some []"
    and wq: "streamQueue waiting_page = js ''abc''"
    and wr: "streamRendered waiting_page = []"
    and wu: "updates waiting_page = []"
    and wp: "pendingFinalizeFn waiting_page \<noteq> None"
    unfolding waiting_page_eq by (simp_all add: init_page_def)
  have wne: "streamQueue waiting_page \<noteq> []" by (simp add: wq js_def)
  from tick_reveals_two[OF wh, of 5]
  have "updates ((tick 1 ^^ 5) waiting_page)
      = updates waiting_page
        @ map (\<lambda>k. [] @ streamRendered waiting_page @ take (k * 2) (streamQueue waiting_page))
            [1..<Suc (min 5 ((length (streamQueue waiting_page) + 1) div 2))]"
    by blast
  also have "length (streamQueue waiting_page) = 3" by (simp add: wq js_def)
  also have "[1..<Suc (min 5 ((3 + 1) div 2))] = [1, 2]"
    by (simp add: upt_conv_Cons)
  finally have five: "updates ((tick 1 ^^ 5) waiting_page) = [js ''ab'', js ''abc'']"
    by (simp add: wq wr wu js_def)
  have pos: "0 < (2::nat)" by simp
  from tick_reveals_two[OF wh, of 2] wne pos
  have w2: "last (updates ((tick 1 ^^ 2) waiting_page))
      = [] @ streamRendered waiting_page @ take (2 * 2) (streamQueue waiting_page)"
    by blast
  have w2': "last (updates ((tick 1 ^^ 2) waiting_page)) = js ''abc''"
    unfolding w2 wq wr by (simp add: js_def)
  have w2l: "length (last (updates ((tick 1 ^^ 2) waiting_page))) = min 3 (2 * 2)"
    unfolding w2' by (simp add: js_def)
  show ?thesis
    unfolding two three q r using h n wh wne wp five w2' w2l by (simp add: js_def)
qed

subsection \<open>Stopping the typewriter\<close>

text \<open>
  Claim C3 says that \<open>stopTypewriter\<close> discards a pending finalize closure, so that it
  never fires afterwards. \<open>stopTypewriter\<close> leaves \<open>pendingFinalizeFn\<close> as it is: on the
  page that waits for its queue to drain the closure is still pending after
  \<open>stopTypewriter\<close>, and a later chunk and tick run it.
\<close>

theorem stopTypewriter_keeps_pending_counterexample:
  "pendingFinalizeFn (stopTypewriter waiting_page) = Some FinalizeStory
   \<and> fn_calls (stopTypewriter waiting_page) = []
   \<and> fn_calls (tick 2 (newStory_onEvent (Chunk (js ''a'')) (stopTypewriter waiting_page)))
       = [([], js ''a'')]"
  unfolding waiting_page_eq
  by (simp add: stopTypewriter_def clearInterval_def init_page_def newStory_onEvent_def
      streamHandler_def Let_def startTypewriter_def setInterval_def tick_def timer_callback_def
      take_of_14 onUpdate_def fire_pending_def call_fn_def finalizeStory_def js_def)

text \<open>
  Claim C3, as the code has it: \<open>stopTypewriter\<close> stops the interval of \<open>streamTimer\<close>,
  empties \<open>streamQueue\<close> and \<open>streamRendered\<close>, calls neither the finalize closure nor
  \<open>onUpdate\<close>, and leaves \<open>pendingFinalizeFn\<close> as it is. The pending closure is discarded
  by the error paths of \<open>newStory\<close> and \<open>sendAction\<close>, which set \<open>pendingFinalizeFn\<close> to
  \<open>null\<close> right after \<open>stopTypewriter\<close>: after these statements no closure registered
  before ever runs, whatever chunks, error events and ticks follow, and no tick calls
  \<open>onUpdate\<close>.
\<close>

theorem stopTypewriter_cancel:
  "streamTimer (stopTypewriter s) = None
   \<and> streamQueue (stopTypewriter s) = []
   \<and> streamRendered (stopTypewriter s) = []
   \<and> fn_calls (stopTypewriter s) = fn_calls s
   \<and> updates (stopTypewriter s) = updates s
   \<and> pendingFinalizeFn (stopTypewriter s) = pendingFinalizeFn s
   \<and> (timers_ok s \<longrightarrow> intervals (stopTypewriter s) = [])
   \<and> streamTimer (cancel s) = None
   \<and> streamQueue (cancel s) = []
   \<and> streamRendered (cancel s) = []
   \<and> pendingFinalizeFn (cancel s) = None
   \<and> fn_calls (cancel s) = fn_calls s
   \<and> updates (cancel s) = updates s
   \<and> (list_all (\<lambda>x. \<not> is_final x) xs \<longrightarrow>
        fn_calls (run prefix errHead xs (cancel s)) = fn_calls s)
   \<and> (timers_ok s \<and> list_all is_tick ts \<longrightarrow>
        run prefix errHead ts (cancel s) = cancel s
        \<and> updates (run prefix errHead ts (cancel s)) = updates s)"
  using timers_ok_clear[of s] timers_ok_cancel[of s]
    run_not_final[of "cancel s" xs prefix errHead]
    run_ticks_idle[of "cancel s" ts prefix errHead]
  by (simp add: stopTypewriter_simps cancel_simps)

theorem stopTypewriter_cancel_witness:
  "timers_ok waiting_page
   \<and> list_all (\<lambda>x. \<not> is_final x) [Tick 1, Event (Chunk (js ''a'')), Tick 2, Tick 2]
   \<and> list_all is_tick [Tick 1, Tick 1]
   \<and> intervals (stopTypewriter waiting_page) = []
   \<and> pendingFinalizeFn (cancel waiting_page) = None
   \<and> fn_calls (run [] [] [Tick 1, Event (Chunk (js ''a'')), Tick 2, Tick 2] (cancel waiting_page)) = []
   \<and> updates (run [] [] [Tick 1, Tick 1] (cancel waiting_page)) = []"
proof -
  have ok: "timers_ok waiting_page"
    unfolding waiting_page_eq by (simp add: timers_ok_def)
  have f: "fn_calls waiting_page = []" and u: "updates waiting_page = []"
    unfolding waiting_page_eq by (simp_all add: init_page_def)
  from stopTypewriter_cancel[of waiting_page
      "[Tick 1, Event (Chunk (js ''a'')), Tick 2, Tick 2]" "[]" "[]" "[Tick 1, Tick 1]"] ok f u
  show ?thesis by simp
qed

subsection \<open>Lemmas on sessions\<close>

lemma idle_session: "idle s \<Longrightarrow> session p [] s"
  by (simp add: idle_def session_def)

lemma fire_pending_grows: "\<exists>zs. fn_calls (fire_pending s) = fn_calls s @ zs"
  by (cases "pendingFinalizeFn s") (simp_all add: fire_pending_None fire_pending_Some)

lemma timer_callback_grows: "\<exists>zs. fn_calls (timer_callback p s) = fn_calls s @ zs"
proof (cases "streamQueue s = []")
  case True
  then show ?thesis using fire_pending_grows[of s] by (simp add: timer_callback_def)
next
  case False
  define s3 where "s3 = onUpdate (p @ streamRendered s @ take 2 (streamQueue s))
             (s\<lparr>streamQueue := drop 2 (streamQueue s),
                streamRendered := streamRendered s @ take 2 (streamQueue s)\<rparr>)"
  have t: "timer_callback p s = (if streamQueue s3 = [] then fire_pending s3 else s3)"
    using False by (simp add: s3_def timer_callback_def Let_def take_of_14)
  have f: "fn_calls s3 = fn_calls s" by (simp add: s3_def onUpdate_simps)
  from fire_pending_grows[of s3] f show ?thesis by (auto simp: t)
qed

lemma do_step_grows: "\<exists>zs. fn_calls (do_step p eh x s) = fn_calls s @ zs"
proof (cases x)
  case (Event e)
  show ?thesis
  proof (cases e)
    case (Chunk t)
    with Event show ?thesis
      by (simp add: do_step_def streamHandler_def Let_def startTypewriter_simps)
  next
    case (Final st)
    with Event fire_pending_grows[of "s\<lparr>pendingFinalStory := Some (opt_or st []),
        pendingFinalizeFn := Some FinalizeStory\<rparr>"]
    show ?thesis by (auto simp: do_step_def streamHandler_def Let_def)
  next
    case (ErrorEvt m)
    with Event show ?thesis by (simp add: do_step_def streamHandler_def Let_def cancel_simps)
  next
    case Other
    with Event show ?thesis by (simp add: do_step_def streamHandler_def)
  qed
next
  case (Tick h)
  with timer_callback_grows show ?thesis
    by (cases "map_of (intervals s) h") (simp_all add: do_step_def tick_def)
qed

lemma run_grows: "\<exists>zs. fn_calls (run p eh xs s) = fn_calls s @ zs"
proof (induction xs arbitrary: s)
  case Nil
  then show ?case by simp
next
  case (Cons x xs)
  from do_step_grows[of p eh x s] obtain zs where a: "fn_calls (do_step p eh x s) = fn_calls s @ zs" ..
  from Cons.IH[of "do_step p eh x s"] obtain ys
    where b: "fn_calls (run p eh xs (do_step p eh x s)) = fn_calls (do_step p eh x s) @ ys" ..
  from a b show ?case by simp
qed

lemma run_snoc: "run p eh (xs @ [x]) s = do_step p eh x (run p eh xs s)"
  by (simp add: run_def)

lemma enqueued_snoc: "enqueued (xs @ [x]) = enqueued xs @ chunk_text x"
  by (simp add: enqueued_def)

lemma session_chunk:
  assumes "session p txt s"
  shows "fn_calls (streamHandler p eh (Chunk t) s) = fn_calls s
    \<and> session p (txt @ t) (streamHandler p eh (Chunk t) s)"
proof (cases "streamTimer s")
  case None
  with assms have "streamQueue s = []" "streamRendered s = []" "txt = []" "intervals s = []"
    "pendingFinalizeFn s = None"
    by (auto simp: session_def)
  with None show ?thesis
    by (simp add: session_def streamHandler_def Let_def startTypewriter_simps)
next
  case (Some h)
  with assms show ?thesis
    by (auto simp: session_def streamHandler_def Let_def)
qed

lemma fire_idle:
  assumes "pendingFinalizeFn s = Some fn"
    and "case streamTimer s of None \<Rightarrow> intervals s = [] | Some h \<Rightarrow> intervals s = [(h, p)]"
  shows "idle (fire_pending s)"
proof -
  from assms(2) have "intervals (stopTypewriter s) = []"
    by (cases "streamTimer s") (simp_all add: stopTypewriter_simps)
  with fire_pending_Some[OF assms(1)] show ?thesis by (simp add: idle_def)
qed

lemma session_final:
  assumes "session p txt s"
  shows "(streamQueue s \<noteq> []
      \<and> fn_calls (streamHandler p eh (Final st) s) = fn_calls s
      \<and> pendingFinalizeFn (streamHandler p eh (Final st) s) = Some FinalizeStory
      \<and> session p txt (streamHandler p eh (Final st) s))
    \<or> (streamQueue s = []
      \<and> fn_calls (streamHandler p eh (Final st) s) = fn_calls s @ [([], txt)]
      \<and> idle (streamHandler p eh (Final st) s))"
proof (cases "streamQueue s = []")
  case False
  with assms show ?thesis
    by (cases "streamTimer s") (simp_all add: session_def streamHandler_def Let_def)
next
  case True
  define s2 where "s2 = s\<lparr>pendingFinalStory := Some (opt_or st []),
        pendingFinalizeFn := Some FinalizeStory\<rparr>"
  have h: "streamHandler p eh (Final st) s = fire_pending s2"
    using True by (simp add: s2_def streamHandler_def Let_def)
  have pf: "pendingFinalizeFn s2 = Some FinalizeStory" by (simp add: s2_def)
  have iv: "case streamTimer s2 of None \<Rightarrow> intervals s2 = [] | Some h \<Rightarrow> intervals s2 = [(h, p)]"
    using assms by (simp add: s2_def session_def split: option.splits)
  have "fn_calls (fire_pending s2) = fn_calls s @ [([], txt)]"
    using assms True by (simp add: fire_pending_Some(5)[OF pf]) (simp add: s2_def session_def)
  with fire_idle[OF pf iv] True show ?thesis by (simp add: h)
qed

lemma session_callback:
  assumes "session p txt s" "streamTimer s = Some h"
  shows "(fn_calls (timer_callback p s) = fn_calls s \<and> session p txt (timer_callback p s))
    \<or> (fn_calls (timer_callback p s) = fn_calls s @ [([], txt)] \<and> idle (timer_callback p s))"
proof (cases "streamQueue s = []")
  case True
  with assms have "pendingFinalizeFn s = None" by (simp add: session_def)
  with True assms show ?thesis by (simp add: timer_callback_def fire_pending_None)
next
  case False
  define s3 where "s3 = onUpdate (p @ streamRendered s @ take 2 (streamQueue s))
             (s\<lparr>streamQueue := drop 2 (streamQueue s),
                streamRendered := streamRendered s @ take 2 (streamQueue s)\<rparr>)"
  have t: "timer_callback p s = (if streamQueue s3 = [] then fire_pending s3 else s3)"
    using False by (simp add: s3_def timer_callback_def Let_def take_of_14)
  have f: "fn_calls s3 = fn_calls s" and q: "streamQueue s3 = drop 2 (streamQueue s)"
    and r: "streamRendered s3 = streamRendered s @ take 2 (streamQueue s)"
    and tm: "streamTimer s3 = Some h" and iv: "intervals s3 = [(h, p)]"
    and pf: "pendingFinalizeFn s3 = pendingFinalizeFn s"
    using assms by (simp_all add: s3_def onUpdate_simps session_def)
  have rq: "streamRendered s3 @ streamQueue s3 = txt"
    using assms by (simp add: q r session_def)
  show ?thesis
  proof (cases "streamQueue s3 = []")
    case False
    with rq tm iv show ?thesis by (simp add: t f session_def)
  next
    case empty: True
    show ?thesis
    proof (cases "pendingFinalizeFn s3")
      case None
      with rq tm iv empty show ?thesis by (simp add: t f fire_pending_None session_def)
    next
      case (Some fn)
      have "case streamTimer s3 of None \<Rightarrow> intervals s3 = [] | Some h \<Rightarrow> intervals s3 = [(h, p)]"
        by (simp add: tm iv)
      from fire_idle[OF Some this] fire_pending_Some(5)[OF Some] rq empty f
      show ?thesis by (simp add: t)
    qed
  qed
qed

lemma session_tick:
  assumes "session p txt s"
  shows "(fn_calls (tick h s) = fn_calls s \<and> session p txt (tick h s))
    \<or> (fn_calls (tick h s) = fn_calls s @ [([], txt)] \<and> idle (tick h s))"
proof (cases "streamTimer s")
  case None
  with assms have "intervals s = []" by (simp add: session_def)
  with assms show ?thesis by (simp add: tick_no_interval)
next
  case (Some h0)
  with assms have iv: "intervals s = [(h0, p)]" by (simp add: session_def)
  show ?thesis
  proof (cases "h = h0")
    case True
    with iv session_callback[OF assms Some] show ?thesis by (simp add: tick_def)
  next
    case False
    with iv assms show ?thesis by (simp add: tick_def)
  qed
qed

lemma session_step:
  assumes "session p txt s" "is_session_step x"
  shows "(fn_calls (do_step p eh x s) = fn_calls s
      \<and> session p (txt @ chunk_text x) (do_step p eh x s))
    \<or> (fn_calls (do_step p eh x s) = fn_calls s @ [([], txt @ chunk_text x)]
      \<and> idle (do_step p eh x s))"
proof (cases x)
  case (Tick h)
  with session_tick[OF assms(1), of h] show ?thesis by (simp add: do_step_def)
next
  case (Event e)
  show ?thesis
  proof (cases e)
    case (Chunk t)
    with Event session_chunk[OF assms(1), of eh t] show ?thesis by (simp add: do_step_def)
  next
    case (Final st)
    with Event session_final[OF assms(1), of eh st] show ?thesis by (auto simp: do_step_def)
  next
    case (ErrorEvt m)
    with Event assms(2) show ?thesis by simp
  next
    case Other
    with Event assms(2) show ?thesis by simp
  qed
qed

lemma run_session:
  "idle s0 \<Longrightarrow> list_all is_session_step xs \<Longrightarrow> fn_calls (run p eh xs s0) = fn_calls s0 \<Longrightarrow>
   session p (enqueued xs) (run p eh xs s0)"
proof (induction xs rule: rev_induct)
  case Nil
  then show ?case by (simp add: enqueued_def idle_session)
next
  case (snoc x xs)
  from snoc.prems(2) have sx: "is_session_step x" and sxs: "list_all is_session_step xs"
    by simp_all
  obtain ys where ys: "fn_calls (run p eh xs s0) = fn_calls s0 @ ys"
    using run_grows by blast
  obtain zs where zs: "fn_calls (do_step p eh x (run p eh xs s0)) = fn_calls (run p eh xs s0) @ zs"
    using do_step_grows by blast
  from snoc.prems(3) ys zs have same: "fn_calls (run p eh xs s0) = fn_calls s0"
    by (simp add: run_snoc)
  from snoc.IH[OF snoc.prems(1) sxs same]
  have inv: "session p (enqueued xs) (run p eh xs s0)" .
  from session_step[OF inv sx, of eh] snoc.prems(3) same
  show ?case by (auto simp: run_snoc enqueued_snoc)
qed











subsection \<open>Lemmas on the timer of a session\<close>





subsection \<open>The order of the revealed text\<close>



subsection \<open>Lemmas on a pending finalize closure\<close>

lemma tick_pending:
  assumes "session p txt s" "streamTimer s = Some h" "pendingFinalizeFn s = Some fn"
  shows "(length (streamQueue s) \<le> 2 \<longrightarrow>
        fn_calls (tick h s) = fn_calls s @ [([], txt)] \<and> idle (tick h s))
    \<and> (2 < length (streamQueue s) \<longrightarrow>
        fn_calls (tick h s) = fn_calls s \<and> session p txt (tick h s)
        \<and> streamTimer (tick h s) = Some h \<and> pendingFinalizeFn (tick h s) = Some fn
        \<and> streamQueue (tick h s) = drop 2 (streamQueue s))"
proof -
  from assms have ne: "streamQueue s \<noteq> []" and iv: "intervals s = [(h, p)]"
    and rq: "streamRendered s @ streamQueue s = txt"
    by (simp_all add: session_def)
  define s3 where "s3 = onUpdate (p @ streamRendered s @ take 2 (streamQueue s))
             (s\<lparr>streamQueue := drop 2 (streamQueue s),
                streamRendered := streamRendered s @ take 2 (streamQueue s)\<rparr>)"
  have t: "tick h s = (if streamQueue s3 = [] then fire_pending s3 else s3)"
    using ne iv by (simp add: s3_def tick_def timer_callback_def Let_def take_of_14)
  have f: "fn_calls s3 = fn_calls s" and q: "streamQueue s3 = drop 2 (streamQueue s)"
    and r: "streamRendered s3 = streamRendered s @ take 2 (streamQueue s)"
    and tm: "streamTimer s3 = Some h" and iv3: "intervals s3 = [(h, p)]"
    and pf: "pendingFinalizeFn s3 = Some fn"
    using assms iv by (simp_all add: s3_def onUpdate_simps)
  have rq3: "streamRendered s3 @ streamQueue s3 = txt"
    using rq by (simp add: q r)
  have a: "fn_calls (tick h s) = fn_calls s @ [([], txt)] \<and> idle (tick h s)"
    if "length (streamQueue s) \<le> 2"
  proof -
    from that have e: "streamQueue s3 = []" by (simp add: q)
    have "case streamTimer s3 of None \<Rightarrow> intervals s3 = [] | Some h \<Rightarrow> intervals s3 = [(h, p)]"
      by (simp add: tm iv3)
    from fire_idle[OF pf this] fire_pending_Some(5)[OF pf] rq3 e f
    show ?thesis by (simp add: t)
  qed
  have b: "fn_calls (tick h s) = fn_calls s \<and> session p txt (tick h s)
        \<and> streamTimer (tick h s) = Some h \<and> pendingFinalizeFn (tick h s) = Some fn
        \<and> streamQueue (tick h s) = drop 2 (streamQueue s)"
    if "2 < length (streamQueue s)"
  proof -
    from that have e: "streamQueue s3 \<noteq> []" by (simp add: q)
    with rq3 tm iv3 pf f q show ?thesis by (simp add: t session_def)
  qed
  from a b show ?thesis by blast
qed

lemma pending_fires:
  "session p txt s \<Longrightarrow> streamTimer s = Some h \<Longrightarrow> pendingFinalizeFn s = Some fn \<Longrightarrow>
   length (streamQueue s) \<le> 2 * N \<Longrightarrow>
   fn_calls (run p eh (replicate N (Tick h)) s) = fn_calls s @ [([], txt)]
   \<and> idle (run p eh (replicate N (Tick h)) s)"
proof (induction N arbitrary: s)
  case 0
  then show ?case by (simp add: session_def)
next
  case (Suc N)
  note tp = tick_pending[OF Suc.prems(1,2,3)]
  show ?case
  proof (cases "length (streamQueue s) \<le> 2")
    case True
    with tp have f: "fn_calls (tick h s) = fn_calls s @ [([], txt)]" and i: "idle (tick h s)"
      by simp_all
    from i have "intervals (tick h s) = []" by (simp add: idle_def)
    from run_ticks_idle[OF this, of "replicate N (Tick h)" p eh]
    have "run p eh (replicate N (Tick h)) (tick h s) = tick h s"
      by (simp add: list_all_iff)
    with f i show ?thesis by (simp add: do_step_def)
  next
    case False
    with tp have f: "fn_calls (tick h s) = fn_calls s" and inv: "session p txt (tick h s)"
      and tm: "streamTimer (tick h s) = Some h" and pf: "pendingFinalizeFn (tick h s) = Some fn"
      and q: "streamQueue (tick h s) = drop 2 (streamQueue s)" by simp_all
    from Suc.prems(4) q have "length (streamQueue (tick h s)) \<le> 2 * N" by simp
    from Suc.IH[OF inv tm pf this] f show ?thesis by (simp add: do_step_def)
  qed
qed

lemma idle_not_pending: "idle s \<Longrightarrow> pendingFinalizeFn s = None"
  by (simp add: idle_def)

lemma run_waiting_page:
  "run [] (js ''[Error]'' @ [nl]) [Event (Chunk (js ''abc'')), Event (Final (Some (js ''abc'')))] init_page
     = waiting_page"
  by (simp add: do_step_def waiting_page_def newStory_onEvent_def)

subsection \<open>The finalize closure waits for the queue\<close>

text \<open>
  Claim C2: take any sequence of steps of a session from the idle page (chunks
  enqueued, ticks, final events) during which the finalize closure has not run. If the
  next step runs it, then at that moment \<open>streamQueue\<close> is empty and the revealed text
  is the whole text enqueued, character for character; \<open>pendingFinalizeFn\<close> has been
  cleared and the page is idle again. If a closure is pending after the sequence, the
  queue is not empty and the timer runs, and any number of ticks that is enough to
  drain the queue runs the closure exactly once, on the whole enqueued text; after
  that no step runs it again unless a final event registers a new one.
\<close>

theorem finalize_fires_once_when_drained:
  assumes "idle s0" "list_all is_session_step xs"
    and "fn_calls (run prefix errHead xs s0) = fn_calls s0"
  shows "(is_session_step x \<longrightarrow>
        fn_calls (run prefix errHead (xs @ [x]) s0) = fn_calls s0
        \<or> (fn_calls (run prefix errHead (xs @ [x]) s0)
              = fn_calls s0 @ [([], enqueued (xs @ [x]))]
            \<and> pendingFinalizeFn (run prefix errHead (xs @ [x]) s0) = None
            \<and> idle (run prefix errHead (xs @ [x]) s0)))
    \<and> (pendingFinalizeFn (run prefix errHead xs s0) \<noteq> None \<longrightarrow>
        streamQueue (run prefix errHead xs s0) \<noteq> []
        \<and> streamTimer (run prefix errHead xs s0) \<noteq> None
        \<and> (\<forall>h N. streamTimer (run prefix errHead xs s0) = Some h
              \<and> length (streamQueue (run prefix errHead xs s0)) \<le> 2 * N \<longrightarrow>
              fn_calls (run prefix errHead (xs @ replicate N (Tick h)) s0)
                = fn_calls s0 @ [([], enqueued xs)]
              \<and> pendingFinalizeFn (run prefix errHead (xs @ replicate N (Tick h)) s0) = None
              \<and> (\<forall>ys. list_all (\<lambda>y. \<not> is_final y) ys \<longrightarrow>
                    fn_calls (run prefix errHead (xs @ replicate N (Tick h) @ ys) s0)
                      = fn_calls s0 @ [([], enqueued xs)])))"
proof -
  let ?s = "run prefix errHead xs s0"
  from run_session[OF assms] have inv: "session prefix (enqueued xs) ?s" .
  have A: "fn_calls (run prefix errHead (xs @ [x]) s0) = fn_calls s0
        \<or> (fn_calls (run prefix errHead (xs @ [x]) s0)
              = fn_calls s0 @ [([], enqueued (xs @ [x]))]
            \<and> pendingFinalizeFn (run prefix errHead (xs @ [x]) s0) = None
            \<and> idle (run prefix errHead (xs @ [x]) s0))"
    if "is_session_step x"
    using session_step[OF inv that, of errHead] assms(3)
    by (auto simp: run_snoc enqueued_snoc idle_not_pending)
  have B: "streamQueue ?s \<noteq> [] \<and> streamTimer ?s \<noteq> None
        \<and> (\<forall>h N. streamTimer ?s = Some h \<and> length (streamQueue ?s) \<le> 2 * N \<longrightarrow>
              fn_calls (run prefix errHead (xs @ replicate N (Tick h)) s0)
                = fn_calls s0 @ [([], enqueued xs)]
              \<and> pendingFinalizeFn (run prefix errHead (xs @ replicate N (Tick h)) s0) = None
              \<and> (\<forall>ys. list_all (\<lambda>y. \<not> is_final y) ys \<longrightarrow>
                    fn_calls (run prefix errHead (xs @ replicate N (Tick h) @ ys) s0)
                      = fn_calls s0 @ [([], enqueued xs)]))"
    if "pendingFinalizeFn ?s \<noteq> None"
  proof -
    from that obtain fn where pf: "pendingFinalizeFn ?s = Some fn" by auto
    from inv that have ne: "streamQueue ?s \<noteq> []" by (simp add: session_def)
    with inv have tm: "streamTimer ?s \<noteq> None"
      by (cases "streamTimer ?s") (auto simp: session_def)
    have fires: "fn_calls (run prefix errHead (xs @ replicate N (Tick h)) s0)
                = fn_calls s0 @ [([], enqueued xs)]
              \<and> pendingFinalizeFn (run prefix errHead (xs @ replicate N (Tick h)) s0) = None
              \<and> (\<forall>ys. list_all (\<lambda>y. \<not> is_final y) ys \<longrightarrow>
                    fn_calls (run prefix errHead (xs @ replicate N (Tick h) @ ys) s0)
                      = fn_calls s0 @ [([], enqueued xs)])"
      if h: "streamTimer ?s = Some h" and n: "length (streamQueue ?s) \<le> 2 * N" for h N
    proof -
      let ?t = "run prefix errHead (replicate N (Tick h)) ?s"
      from pending_fires[OF inv h pf n, of errHead] assms(3)
      have f: "fn_calls ?t = fn_calls s0 @ [([], enqueued xs)]" and i: "idle ?t" by simp_all
      from i have pn: "pendingFinalizeFn ?t = None" by (simp add: idle_def)
      have "fn_calls (run prefix errHead ys ?t) = fn_calls s0 @ [([], enqueued xs)]"
        if "list_all (\<lambda>y. \<not> is_final y) ys" for ys
        using run_not_final[OF pn that, of prefix errHead] f by simp
      with f pn show ?thesis by (simp add: run_append)
    qed
    from ne tm fires show ?thesis by blast
  qed
  from A B show ?thesis by blast
qed

theorem finalize_fires_once_when_drained_witness:
  "idle init_page
   \<and> list_all is_session_step [Event (Chunk (js ''abc'')), Event (Final (Some (js ''abc'')))]
   \<and> fn_calls (run [] (js ''[Error]'' @ [nl])
         [Event (Chunk (js ''abc'')), Event (Final (Some (js ''abc'')))] init_page) = fn_calls init_page
   \<and> pendingFinalizeFn (run [] (js ''[Error]'' @ [nl])
         [Event (Chunk (js ''abc'')), Event (Final (Some (js ''abc'')))] init_page) \<noteq> None
   \<and> is_session_step (Tick 1)
   \<and> fn_calls (run [] (js ''[Error]'' @ [nl])
         ([Event (Chunk (js ''abc'')), Event (Final (Some (js ''abc'')))] @ replicate 2 (Tick 1)) init_page)
       = [([], js ''abc'')]
   \<and> fn_calls (run [] (js ''[Error]'' @ [nl])
         ([Event (Chunk (js ''abc'')), Event (Final (Some (js ''abc'')))] @ replicate 5 (Tick 1)) init_page)
       = [([], js ''abc'')]"
proof -
  let ?xs = "[Event (Chunk (js ''abc'')), Event (Final (Some (js ''abc'')))]"
  let ?eh = "js ''[Error]'' @ [nl]"
  have i: "idle init_page" by (simp add: idle_def init_page_def)
  have a: "list_all is_session_step ?xs" by simp
  have f0: "fn_calls init_page = []" by (simp add: init_page_def)
  have f: "fn_calls (run [] ?eh ?xs init_page) = fn_calls init_page"
    unfolding run_waiting_page waiting_page_eq by (simp add: init_page_def)
  have pf: "pendingFinalizeFn (run [] ?eh ?xs init_page) \<noteq> None"
    and tm: "streamTimer (run [] ?eh ?xs init_page) = Some 1"
    and q: "length (streamQueue (run [] ?eh ?xs init_page)) = 3"
    unfolding run_waiting_page waiting_page_eq by (simp_all add: init_page_def js_def)
  have e: "enqueued ?xs = js ''abc''" by (simp add: enqueued_def)
  note main = finalize_fires_once_when_drained[OF i a f, of "Tick 1"]
  from main pf
  have B: "\<forall>h N. streamTimer (run [] ?eh ?xs init_page) = Some h
      \<and> length (streamQueue (run [] ?eh ?xs init_page)) \<le> 2 * N \<longrightarrow>
      fn_calls (run [] ?eh (?xs @ replicate N (Tick h)) init_page)
        = fn_calls init_page @ [([], enqueued ?xs)]"
    by blast
  from B[rule_format, of 1 2] tm q
  have two: "fn_calls (run [] ?eh (?xs @ replicate 2 (Tick 1)) init_page)
      = fn_calls init_page @ [([], enqueued ?xs)]"
    by simp
  from B[rule_format, of 1 5] tm q
  have five: "fn_calls (run [] ?eh (?xs @ replicate 5 (Tick 1)) init_page)
      = fn_calls init_page @ [([], enqueued ?xs)]"
    by simp
  show ?thesis
    using i a f pf unfolding two five e f0 by simp
qed

subsection \<open>The message of a failed request\<close>

text \<open>
  Claim C8: for every response text and whatever \<open>JSON.parse\<close> does with it,
  \<open>extractErrorMessage\<close> returns and does not throw. It returns the \<open>detail\<close> of the
  parsed value if that is a string; else its \<open>message\<close> if that is a string; else, and
  also when the text does not parse, the trimmed text if that is not empty and
  \<open>Request failed.\<close> if it is.
\<close>

theorem extractErrorMessage_cases:
  "(\<exists>r. extractErrorMessage parse text = Inr r)
   \<and> (parse text = Inr obj \<and> get_prop obj (js ''detail'') = Some (JString d) \<longrightarrow>
        extractErrorMessage parse text = Inr d)
   \<and> (parse text = Inr obj \<and> (\<forall>x. get_prop obj (js ''detail'') \<noteq> Some (JString x))
        \<and> get_prop obj (js ''message'') = Some (JString m) \<longrightarrow>
        extractErrorMessage parse text = Inr m)
   \<and> ((\<exists>e. parse text = Inl e)
        \<or> (parse text = Inr obj \<and> (\<forall>x. get_prop obj (js ''detail'') \<noteq> Some (JString x))
            \<and> (\<forall>x. get_prop obj (js ''message'') \<noteq> Some (JString x))) \<longrightarrow>
        extractErrorMessage parse text
          = Inr (if trim text = [] then js ''Request failed.'' else trim text))"
proof -
  have sp: "string_prop v name = Some x \<longleftrightarrow> get_prop v name = Some (JString x)" for v name x
  proof (cases v)
    case (JObject kvs)
    then show ?thesis
      by (auto simp: string_prop_def split: option.splits json.splits)
  qed (simp_all add: string_prop_def)
  have total: "\<exists>r. extractErrorMessage parse text = Inr r"
    by (auto simp: extractErrorMessage_def split: sum.splits option.splits)
  have detail: "extractErrorMessage parse text = Inr d"
    if "parse text = Inr obj" "get_prop obj (js ''detail'') = Some (JString d)"
  proof -
    from that(2) have "string_prop obj (js ''detail'') = Some d" by (simp add: sp)
    with that(1) show ?thesis by (simp add: extractErrorMessage_def extract_try_def)
  qed
  have message: "extractErrorMessage parse text = Inr m"
    if "parse text = Inr obj" "\<forall>x. get_prop obj (js ''detail'') \<noteq> Some (JString x)"
      "get_prop obj (js ''message'') = Some (JString m)"
  proof -
    from that(2) have "string_prop obj (js ''detail'') = None"
      by (cases "string_prop obj (js ''detail'')") (simp_all add: sp)
    moreover from that(3) have "string_prop obj (js ''message'') = Some m" by (simp add: sp)
    ultimately show ?thesis using that(1) by (simp add: extractErrorMessage_def extract_try_def)
  qed
  have fallback: "extractErrorMessage parse text
          = Inr (if trim text = [] then js ''Request failed.'' else trim text)"
    if "(\<exists>e. parse text = Inl e)
        \<or> (parse text = Inr obj \<and> (\<forall>x. get_prop obj (js ''detail'') \<noteq> Some (JString x))
            \<and> (\<forall>x. get_prop obj (js ''message'') \<noteq> Some (JString x)))"
  proof -
    have t: "or_else (trim (or_else text [])) (js ''Request failed.'')
        = (if trim text = [] then js ''Request failed.'' else trim text)"
      by (simp add: or_else_def)
    from that show ?thesis
    proof
      assume "\<exists>e. parse text = Inl e"
      then show ?thesis by (auto simp: extractErrorMessage_def extract_try_def t)
    next
      assume a: "parse text = Inr obj \<and> (\<forall>x. get_prop obj (js ''detail'') \<noteq> Some (JString x))
            \<and> (\<forall>x. get_prop obj (js ''message'') \<noteq> Some (JString x))"
      from a have "string_prop obj (js ''detail'') = None"
        by (cases "string_prop obj (js ''detail'')") (simp_all add: sp)
      moreover from a have "string_prop obj (js ''message'') = None"
        by (cases "string_prop obj (js ''message'')") (simp_all add: sp)
      ultimately show ?thesis using a by (simp add: extractErrorMessage_def extract_try_def t)
    qed
  qed
  from total detail message fallback show ?thesis by blast
qed

theorem extractErrorMessage_cases_witness:
  "extractErrorMessage (\<lambda>t. Inr (JObject [(js ''detail'', JString (js ''Ollama is down''))])) (js ''{}'')
     = Inr (js ''Ollama is down'')
   \<and> extractErrorMessage (\<lambda>t. Inr (JObject [(js ''detail'', JNumber 5), (js ''message'', JString (js ''busy''))])) (js ''{}'')
     = Inr (js ''busy'')
   \<and> extractErrorMessage (\<lambda>t. Inl SyntaxError) (js '' Bad Gateway '') = Inr (js ''Bad Gateway'')
   \<and> extractErrorMessage (\<lambda>t. Inl SyntaxError) (js ''  '') = Inr (js ''Request failed.'')"
proof -
  have t1: "trim (js '' Bad Gateway '') = js ''Bad Gateway''"
    by (simp add: trim_def trimStart_def trimEnd_def js_def is_ws_def)
  have t2: "trim (js ''  '') = []"
    by (simp add: trim_def trimStart_def trimEnd_def js_def is_ws_def)
  have k: "js ''detail'' \<noteq> js ''message''" "js ''message'' \<noteq> js ''detail''"
    by (simp_all add: js_def)
  from extractErrorMessage_cases[of "\<lambda>t. Inr (JObject [(js ''detail'', JString (js ''Ollama is down''))])"
      "js ''{}''" "JObject [(js ''detail'', JString (js ''Ollama is down''))]" "js ''Ollama is down''"]
  have a: "extractErrorMessage (\<lambda>t. Inr (JObject [(js ''detail'', JString (js ''Ollama is down''))])) (js ''{}'')
     = Inr (js ''Ollama is down'')" by simp
  from extractErrorMessage_cases[of "\<lambda>t. Inr (JObject [(js ''detail'', JNumber 5), (js ''message'', JString (js ''busy''))])"
      "js ''{}''" "JObject [(js ''detail'', JNumber 5), (js ''message'', JString (js ''busy''))]" _ "js ''busy''"] k
  have b: "extractErrorMessage (\<lambda>t. Inr (JObject [(js ''detail'', JNumber 5), (js ''message'', JString (js ''busy''))])) (js ''{}'')
     = Inr (js ''busy'')" by simp
  from extractErrorMessage_cases[of "\<lambda>t. Inl SyntaxError" "js '' Bad Gateway ''"] t1
  have c: "extractErrorMessage (\<lambda>t. Inl SyntaxError) (js '' Bad Gateway '') = Inr (js ''Bad Gateway'')"
    by (simp add: js_def)
  from extractErrorMessage_cases[of "\<lambda>t. Inl SyntaxError" "js ''  ''"] t2
  have d: "extractErrorMessage (\<lambda>t. Inl SyntaxError) (js ''  '') = Inr (js ''Request failed.'')"
    by simp
  from a b c d show ?thesis by simp
qed

subsection \<open>Lemmas on lines\<close>

lemma split_nl_not_Nil [simp]: "split_nl s \<noteq> []"
  by (induction s) (auto split: list.splits)

lemma split_nl_no_nl: "nl \<notin> set b \<Longrightarrow> split_nl b = [b]"
  by (induction b) auto

lemma split_nl_at:
  "nl \<in> set b \<Longrightarrow>
   split_nl b = take (length (takeWhile (\<lambda>c. c \<noteq> nl) b)) b
     # split_nl (drop (Suc (length (takeWhile (\<lambda>c. c \<noteq> nl) b))) b)"
proof (induction b)
  case Nil
  then show ?case by simp
next
  case (Cons c cs)
  show ?case
  proof (cases "c = nl")
    case True
    then show ?thesis by simp
  next
    case False
    with Cons.prems have "nl \<in> set cs" by simp
    from Cons.IH[OF this] False show ?thesis by simp
  qed
qed

lemma split_nl_append:
  "split_nl (x @ y) = butlast (split_nl x) @ split_nl (last (split_nl x) @ y)"
proof (induction x)
  case Nil
  then show ?case by simp
next
  case (Cons c cs)
  show ?case
  proof (cases "c = nl")
    case True
    with Cons show ?thesis by simp
  next
    case False
    obtain l ls where sp: "split_nl cs = l # ls" by (cases "split_nl cs") simp_all
    show ?thesis
    proof (cases ls)
      case Nil
      with sp Cons False show ?thesis by simp
    next
      case (Cons l' ls')
      with sp Cons.IH False show ?thesis by simp
    qed
  qed
qed

lemma events_of_Nil [simp]: "events_of parse [] = []"
  by (simp add: events_of_def List.map_filter_simps)

lemma events_of_Cons:
  "events_of parse (l # ls) =
     (if trim l = [] then events_of parse ls
      else (case parse (trim l) of Inr e \<Rightarrow> e # events_of parse ls | Inl x \<Rightarrow> events_of parse ls))"
  by (simp add: events_of_def List.map_filter_simps split: sum.splits)

lemma events_of_append: "events_of parse (ls @ ms) = events_of parse ls @ events_of parse ms"
  by (induction ls) (simp_all add: events_of_Cons split: sum.splits)

lemma drain_eq:
  "drain parse onEvent b st
     = (last (split_nl b), fold onEvent (events_of parse (complete_lines b)) st)"
proof (induction parse onEvent b st rule: drain.induct)
  case (1 parse onEvent buffer st)
  show ?case
  proof (cases "index_nl buffer")
    case None
    then have "nl \<notin> set buffer" by (simp add: index_nl_def split: if_splits)
    from split_nl_no_nl[OF this] None show ?thesis
      by (simp add: drain.simps[of parse onEvent buffer st] complete_lines_def)
  next
    case (Some idx)
    then have mem: "nl \<in> set buffer" and idx: "idx = length (takeWhile (\<lambda>c. c \<noteq> nl) buffer)"
      by (auto simp: index_nl_def split: if_splits)
    let ?line = "take idx buffer" and ?rest = "drop (idx + 1) buffer"
    have sp: "split_nl buffer = ?line # split_nl ?rest"
      using split_nl_at[OF mem] idx by simp
    have la: "last (split_nl buffer) = last (split_nl ?rest)"
      and cl: "complete_lines buffer = ?line # complete_lines ?rest"
      by (simp_all add: sp complete_lines_def)
    show ?thesis
    proof (cases "trim ?line = []")
      case True
      from "1.IH"(1)[OF Some refl refl True] True Some show ?thesis
        by (simp add: drain.simps[of parse onEvent buffer st] la cl events_of_Cons)
    next
      case False
      show ?thesis
      proof (cases "parse (trim ?line)")
        case (Inr e)
        from "1.IH"(3)[OF Some refl refl False Inr] False Some Inr show ?thesis
          by (simp add: drain.simps[of parse onEvent buffer st] la cl events_of_Cons)
      next
        case (Inl x)
        from "1.IH"(2)[OF Some refl refl False Inl] False Some Inl show ?thesis
          by (simp add: drain.simps[of parse onEvent buffer st] la cl events_of_Cons)
      qed
    qed
  qed
qed

lemma last_split_no_nl: "nl \<notin> set (last (split_nl x))"
proof (induction x)
  case Nil
  then show ?case by simp
next
  case (Cons c cs)
  obtain l ls where sp: "split_nl cs = l # ls" by (cases "split_nl cs") simp_all
  with Cons show ?case by (cases ls) auto
qed

lemma read_loop_eq:
  "nl \<notin> set b \<Longrightarrow>
   read_loop parse onEvent chunks b st
     = (last (split_nl (b @ concat chunks)),
        fold onEvent (events_of parse (complete_lines (b @ concat chunks))) st)"
proof (induction chunks arbitrary: b st)
  case Nil
  from split_nl_no_nl[OF Nil] show ?case by (simp add: complete_lines_def)
next
  case (Cons v rest)
  let ?b = "last (split_nl (b @ v))"
  let ?st = "fold onEvent (events_of parse (complete_lines (b @ v))) st"
  have sp: "split_nl (b @ v @ concat rest)
      = butlast (split_nl (b @ v)) @ split_nl (?b @ concat rest)"
    using split_nl_append[of "b @ v" "concat rest"] by simp
  have la: "last (split_nl (b @ v @ concat rest)) = last (split_nl (?b @ concat rest))"
    by (simp add: sp)
  have cl: "complete_lines (b @ v @ concat rest)
      = complete_lines (b @ v) @ complete_lines (?b @ concat rest)"
    by (simp add: sp complete_lines_def butlast_append)
  have "read_loop parse onEvent (v # rest) b st = read_loop parse onEvent rest ?b ?st"
    by (simp add: drain_eq)
  also have "\<dots> = (last (split_nl (?b @ concat rest)),
      fold onEvent (events_of parse (complete_lines (?b @ concat rest))) ?st)"
    by (rule Cons.IH[OF last_split_no_nl])
  also have "\<dots> = (last (split_nl (b @ concat (v # rest))),
      fold onEvent (events_of parse (complete_lines (b @ concat (v # rest)))) st)"
    by (simp add: la cl events_of_append)
  finally show ?case .
qed

subsection \<open>The lines of the event stream\<close>

text \<open>
  Claim C9 says that \<open>onEvent\<close> is called once for each line of the stream that parses.
  The loop takes a line from the buffer only when a newline ends it, and nothing reads
  the buffer once the stream is done: of the stream \<open>1\<close>, newline, \<open>2\<close> the second line
  parses and is never handed to \<open>onEvent\<close>.
\<close>

theorem streamNdjson_last_line_counterexample:
  "spec_events parse_12 stream_12 = [JNumber 1, JNumber 2]
   \<and> streamNdjson parse_12 (\<lambda>e called. called @ [e])
        \<lparr>ok = True, body_text = [], body = Some [stream_12]\<rparr> []
      = Inr [JNumber 1]"
proof -
  have t: "trim (js ''1'') = js ''1''" "trim (js ''2'') = js ''2''"
    by (simp_all add: trim_def trimStart_def trimEnd_def js_def is_ws_def)
  have p: "parse_12 (js ''1'') = Inr (JNumber 1)" "parse_12 (js ''2'') = Inr (JNumber 2)"
    by (simp_all add: parse_12_def js_def)
  have ne: "js ''1'' \<noteq> []" "js ''2'' \<noteq> []"
    by (simp_all add: js_def)
  have sp: "split_nl stream_12 = [js ''1'', js ''2'']"
    by (simp add: stream_12_def js_def nl_def)
  have a: "spec_events parse_12 stream_12 = [JNumber 1, JNumber 2]"
    unfolding spec_events_def sp by (simp add: events_of_Cons t p ne)
  have c: "concat [stream_12] = stream_12" by simp
  have "read_loop parse_12 (\<lambda>e called. called @ [e]) [stream_12] [] []
      = (last (split_nl stream_12),
         fold (\<lambda>e called. called @ [e]) (events_of parse_12 (complete_lines stream_12)) [])"
    using read_loop_eq[of "[]" parse_12 "\<lambda>e called. called @ [e]" "[stream_12]" "[]"]
    unfolding c by simp
  also have "\<dots> = (js ''2'', [JNumber 1])"
    unfolding complete_lines_def sp by (simp add: events_of_Cons t p ne)
  finally have b: "streamNdjson parse_12 (\<lambda>e called. called @ [e])
        \<lparr>ok = True, body_text = [], body = Some [stream_12]\<rparr> []
      = Inr [JNumber 1]"
    by (simp add: streamNdjson_def)
  from a b show ?thesis by simp
qed

text \<open>
  Claim C9, as the code has it: however the text of the stream is cut into chunks,
  \<open>streamNdjson\<close> hands to \<open>onEvent\<close>, once each and in the order of the stream, the
  values of the lines that end with a newline, are not blank and parse once trimmed. A
  blank line or one that does not parse is passed over: the events of the lines before
  and after it are the same with it and without it. What follows the last newline is
  never handed over; when it is blank, as in a stream whose last line ends with a
  newline, these are the events of all the lines.
\<close>

theorem streamNdjson_events:
  "streamNdjson parse onEvent \<lparr>ok = True, body_text = tx, body = Some chunks\<rparr> st
     = Inr (fold onEvent (events_of parse (complete_lines (concat chunks))) st)
   \<and> streamNdjson parse (\<lambda>e called. called @ [e]) \<lparr>ok = True, body_text = tx, body = Some chunks\<rparr> []
     = Inr (events_of parse (complete_lines (concat chunks)))
   \<and> (trim l = [] \<or> (\<exists>x. parse (trim l) = Inl x) \<longrightarrow>
        events_of parse (ls @ [l] @ ms) = events_of parse ls @ events_of parse ms)
   \<and> (\<forall>e. parse (trim l) = Inr e \<and> trim l \<noteq> [] \<longrightarrow>
        events_of parse (ls @ [l] @ ms) = events_of parse ls @ [e] @ events_of parse ms)
   \<and> (trim (last (split_nl (concat chunks))) = [] \<longrightarrow>
        events_of parse (complete_lines (concat chunks)) = spec_events parse (concat chunks))"
proof -
  have log: "fold (\<lambda>e called. called @ [e]) es acc = acc @ es" for es :: "json list" and acc
    by (induction es arbitrary: acc) simp_all
  have run: "streamNdjson parse f \<lparr>ok = True, body_text = tx, body = Some chunks\<rparr> s
     = Inr (fold f (events_of parse (complete_lines (concat chunks))) s)" for f :: "json \<Rightarrow> 'b \<Rightarrow> 'b" and s
    using read_loop_eq[of "[]" parse f chunks s] by (simp add: streamNdjson_def)
  have skip: "events_of parse (ls @ [l] @ ms) = events_of parse ls @ events_of parse ms"
    if "trim l = [] \<or> (\<exists>x. parse (trim l) = Inl x)" for l ls ms
    using that by (auto simp: events_of_append events_of_Cons)
  have keep: "events_of parse (ls @ [l] @ ms) = events_of parse ls @ [e] @ events_of parse ms"
    if "parse (trim l) = Inr e \<and> trim l \<noteq> []" for e
    using that by (simp add: events_of_append events_of_Cons)
  have whole: "events_of parse (complete_lines (concat chunks)) = spec_events parse (concat chunks)"
    if "trim (last (split_nl (concat chunks))) = []"
  proof -
    have "split_nl (concat chunks)
        = complete_lines (concat chunks) @ [last (split_nl (concat chunks))] @ []"
      by (simp add: complete_lines_def)
    then have "spec_events parse (concat chunks)
        = events_of parse (complete_lines (concat chunks) @ [last (split_nl (concat chunks))] @ [])"
      by (simp only: spec_events_def)
    also have "\<dots> = events_of parse (complete_lines (concat chunks)) @ events_of parse []"
      using that by (intro skip) simp
    finally show ?thesis by simp
  qed
  from run[of onEvent st] run[of "\<lambda>e called. called @ [e]" "[]"] log[of _ "[]"]
    skip[of l ls ms] keep whole
  show ?thesis by simp
qed

theorem streamNdjson_events_witness:
  "streamNdjson parse_12 (\<lambda>e called. called @ [e])
      \<lparr>ok = True, body_text = [], body = Some chunks_1x2\<rparr> []
     = Inr [JNumber 1, JNumber 2]
   \<and> (trim (js ''x'') = [] \<or> (\<exists>x. parse_12 (trim (js ''x'')) = Inl x))
   \<and> events_of parse_12 ([js ''1''] @ [js ''x''] @ [js '' 2'']) = [JNumber 1, JNumber 2]
   \<and> parse_12 (trim (js '' 2'')) = Inr (JNumber 2) \<and> trim (js '' 2'') \<noteq> []
   \<and> trim (last (split_nl (concat chunks_1x2))) = []
   \<and> spec_events parse_12 (concat chunks_1x2) = [JNumber 1, JNumber 2]"
proof -
  have t: "trim (js ''1'') = js ''1''" "trim (js ''x'') = js ''x''" "trim (js '' 2'') = js ''2''"
    "trim [] = []"
    by (simp_all add: trim_def trimStart_def trimEnd_def js_def is_ws_def)
  have p: "parse_12 (js ''1'') = Inr (JNumber 1)" "parse_12 (js ''2'') = Inr (JNumber 2)"
    "parse_12 (js ''x'') = Inl SyntaxError"
    by (simp_all add: parse_12_def js_def)
  have ne: "js ''1'' \<noteq> []" "js ''2'' \<noteq> []" "js ''x'' \<noteq> []"
    by (simp_all add: js_def)
  have sp: "split_nl (concat chunks_1x2) = [js ''1'', js ''x'', [], js '' 2'', []]"
    by (simp add: chunks_1x2_def js_def nl_def)
  have cl: "complete_lines (concat chunks_1x2) = [js ''1'', js ''x'', [], js '' 2'']"
    unfolding complete_lines_def sp by simp
  have la: "trim (last (split_nl (concat chunks_1x2))) = []"
    unfolding sp by (simp add: t)
  have ev: "events_of parse_12 [js ''1'', js ''x'', [], js '' 2''] = [JNumber 1, JNumber 2]"
    by (simp add: events_of_Cons t p ne)
  have ev2: "events_of parse_12 [js ''1''] = [JNumber 1]" "events_of parse_12 [js '' 2''] = [JNumber 2]"
    by (simp_all add: events_of_Cons t p ne)
  have bad: "trim (js ''x'') = [] \<or> (\<exists>x. parse_12 (trim (js ''x'')) = Inl x)"
    by (simp add: t p)
  have good: "parse_12 (trim (js '' 2'')) = Inr (JNumber 2) \<and> trim (js '' 2'') \<noteq> []"
    by (simp add: t p ne)
  note main = streamNdjson_events[of parse_12 "\<lambda>e called. called @ [e]" "[]" chunks_1x2 "[]"
      "js ''x''" "[js ''1'']" "[js '' 2'']"]
  from main have a: "streamNdjson parse_12 (\<lambda>e called. called @ [e])
      \<lparr>ok = True, body_text = [], body = Some chunks_1x2\<rparr> []
     = Inr (events_of parse_12 (complete_lines (concat chunks_1x2)))"
    by blast
  from main bad have b: "events_of parse_12 ([js ''1''] @ [js ''x''] @ [js '' 2''])
      = events_of parse_12 [js ''1''] @ events_of parse_12 [js '' 2'']"
    by blast
  from main la have c: "events_of parse_12 (complete_lines (concat chunks_1x2))
      = spec_events parse_12 (concat chunks_1x2)"
    by blast
  have a': "streamNdjson parse_12 (\<lambda>e called. called @ [e])
      \<lparr>ok = True, body_text = [], body = Some chunks_1x2\<rparr> []
     = Inr [JNumber 1, JNumber 2]"
    unfolding a cl ev ..
  have b': "events_of parse_12 ([js ''1''] @ [js ''x''] @ [js '' 2'']) = [JNumber 1, JNumber 2]"
    unfolding b ev2 by simp
  have c': "spec_events parse_12 (concat chunks_1x2) = [JNumber 1, JNumber 2]"
    unfolding c[symmetric] cl ev ..
  from a' bad b' good la c' show ?thesis by blast
qed

subsection \<open>Lemmas on the search for the choice list\<close>

lemma re_exec_None: "re_exec t i = None \<Longrightarrow> i \<le> j \<Longrightarrow> match_at t j = None"
proof (induction t i rule: re_exec.induct)
  case (1 t i)
  show ?case
  proof (cases "length t < i")
    case True
    with "1.prems" show ?thesis by (auto simp: match_at_def)
  next
    case False
    with "1.prems" have m: "match_at t i = None" and r: "re_exec t (Suc i) = None"
      by (auto simp: re_exec.simps[of t i] split: option.splits)
    show ?thesis
    proof (cases "j = i")
      case True
      with m show ?thesis by simp
    next
      case False
      with "1.prems" have "Suc i \<le> j" by simp
      from "1.IH"[OF \<open>\<not> length t < i\<close> m r this] show ?thesis .
    qed
  qed
qed

lemma starts_one_length: "starts_one s \<Longrightarrow> 2 < length s"
  by (auto simp: starts_one_def split: list.splits)

lemma marker_less: "marker t k \<Longrightarrow> k < length t"
  using starts_one_length[of "drop k t"] by (simp add: marker_def)

lemma match_at_marker:
  "match_at t i = Some (g, e) \<Longrightarrow>
   marker t (i + g) \<and> e = i + g + 2 + ws_run (drop (i + g + 2) t)"
  by (auto simp: match_at_def marker_def numeral_2_eq_2 numeral_3_eq_3 split: if_splits)

lemma marker_match:
  assumes "marker t k"
  shows "\<exists>i g e. match_at t i = Some (g, e) \<and> i + g = k"
proof (cases "k = 0")
  case True
  with assms show ?thesis by (auto simp: match_at_def marker_def)
next
  case False
  with assms have nlk: "t ! (k - 1) = nl" and st: "starts_one (drop k t)"
    by (simp_all add: marker_def)
  from marker_less[OF assms] False have lt: "k - 1 < length t" by simp
  have "\<not> (k - 1 = 0 \<and> starts_one t)"
  proof
    assume a: "k - 1 = 0 \<and> starts_one t"
    then have "t ! 0 = 49" by (auto simp: starts_one_def split: list.splits)
    with a nlk show False by (simp add: nl_def)
  qed
  with nlk st lt False
  have "match_at t (k - 1) = Some (1, (k - 1) + 3 + ws_run (drop ((k - 1) + 3) t))"
    by (auto simp: match_at_def)
  moreover from False have "(k - 1) + 1 = k" by simp
  ultimately show ?thesis by blast
qed

lemma exec_loop_result:
  "(exec_loop t li found = found \<and> (\<forall>j\<ge>li. match_at t j = None))
   \<or> (\<exists>i g e. li \<le> i \<and> match_at t i = Some (g, e)
        \<and> exec_loop t li found = int i + int g \<and> (\<forall>j\<ge>e. match_at t j = None))"
proof (induction t li found rule: exec_loop.induct)
  case (1 t li found)
  show ?case
  proof (cases "re_exec t li")
    case None
    then have "\<forall>j\<ge>li. match_at t j = None" using re_exec_None by blast
    with None show ?thesis by (simp add: exec_loop.simps[of t li found])
  next
    case (Some m)
    obtain idx g e where m: "m = (idx, g, e)" by (cases m)
    from Some m have ex: "re_exec t li = Some (idx, g, e)" by simp
    from re_exec_Some[OF ex] have le: "li \<le> idx" and lt: "idx < e"
      and ma: "match_at t idx = Some (g, e)" by simp_all
    have un: "exec_loop t li found = exec_loop t e (int idx + int g)"
      using ex by (simp add: exec_loop.simps[of t li found])
    from "1.IH"[OF ex refl refl]
    show ?thesis
    proof
      assume "exec_loop t e (int idx + int g) = int idx + int g \<and> (\<forall>j\<ge>e. match_at t j = None)"
      with le ma un show ?thesis by auto
    next
      assume "\<exists>i g' e'. e \<le> i \<and> match_at t i = Some (g', e')
        \<and> exec_loop t e (int idx + int g) = int i + int g' \<and> (\<forall>j\<ge>e'. match_at t j = None)"
      then obtain i g' e' where "e \<le> i" "match_at t i = Some (g', e')"
        "exec_loop t e (int idx + int g) = int i + int g'" "\<forall>j\<ge>e'. match_at t j = None"
        by blast
      with le lt un show ?thesis by (intro disjI2 exI[of _ i] exI[of _ g'] exI[of _ e']) simp
    qed
  qed
qed

lemma lastMatchIndex_none: "(\<forall>i. \<not> marker t i) \<Longrightarrow> lastMatchIndex t = - 1"
  using exec_loop_result[of t 0 "- 1"] match_at_marker[of t]
  unfolding lastMatchIndex_def by blast

lemma lastMatchIndex_some:
  assumes "marker t i"
  shows "\<exists>k. lastMatchIndex t = int k \<and> marker t k
    \<and> (\<forall>j. k + 2 + ws_run (drop (k + 2) t) < j \<longrightarrow> \<not> marker t j)"
proof -
  from marker_match[OF assms] obtain i0 g0 e0 where m0: "match_at t i0 = Some (g0, e0)"
    by blast
  then have "\<not> (\<forall>j\<ge>0. match_at t j = None)" by auto
  with exec_loop_result[of t 0 "- 1"]
  obtain i g e where ma: "match_at t i = Some (g, e)"
    and r: "exec_loop t 0 (- 1) = int i + int g" and no: "\<forall>j\<ge>e. match_at t j = None"
    by blast
  from match_at_marker[OF ma] have mk: "marker t (i + g)"
    and e: "e = i + g + 2 + ws_run (drop (i + g + 2) t)" by simp_all
  have "\<not> marker t j" if "i + g + 2 + ws_run (drop (i + g + 2) t) < j" for j
  proof
    assume "marker t j"
    from marker_match[OF this] obtain i' g' e' where m': "match_at t i' = Some (g', e')"
      and j: "i' + g' = j" by blast
    from m' have "g' \<le> 1" by (auto simp: match_at_def split: if_splits)
    with j that e have "e \<le> i'" by simp
    with no m' show False by simp
  qed
  with mk r show ?thesis
    unfolding lastMatchIndex_def by (intro exI[of _ "i + g"]) simp
qed

lemma backtrack_None:
  "n \<le> m \<Longrightarrow> \<exists>c \<in> set (drop m r). is_lt c \<Longrightarrow> backtrack n r = None"
proof (induction n)
  case 0
  then show ?case by simp
next
  case (Suc n)
  from Suc.prems(1) have "set (drop m r) \<subseteq> set (drop (Suc n) r)"
    by (rule set_drop_subset_set_drop)
  with Suc.prems(2) have no: "\<not> list_all (\<lambda>c. \<not> is_lt c) (drop (Suc n) r)"
    by (auto simp: list_all_iff)
  from Suc.prems(1) have "n \<le> m" by simp
  from Suc.IH[OF this Suc.prems(2)] no show ?case by simp
qed

lemma backtrack_run:
  "backtrack (ws_run r) r =
     (if 0 < ws_run r \<and> (\<forall>c \<in> set (dropWhile is_ws r). \<not> is_lt c)
      then Some (dropWhile is_ws r) else None)"
proof -
  have d: "drop (ws_run r) r = dropWhile is_ws r"
    by (simp add: ws_run_def dropWhile_eq_drop)
  show ?thesis
  proof (cases "ws_run r")
    case 0
    then show ?thesis by simp
  next
    case (Suc n)
    show ?thesis
    proof (cases "\<forall>c \<in> set (dropWhile is_ws r). \<not> is_lt c")
      case True
      with Suc d[unfolded Suc] show ?thesis by (simp add: list_all_iff)
    next
      case False
      with d have "\<exists>c \<in> set (drop (ws_run r) r). is_lt c" by simp
      from backtrack_None[OF order_refl this] False show ?thesis by simp
    qed
  qed
qed

lemma choice_match_payload: "choice_match l = payload l"
proof (cases l)
  case Nil
  then show ?thesis by (simp add: choice_match_def payload_def choice_prefix_def)
next
  case (Cons d l1)
  show ?thesis
  proof (cases l1)
    case Nil
    with Cons show ?thesis by (simp add: choice_match_def payload_def choice_prefix_def)
  next
    case (Cons p r)
    have cm: "choice_match (d # p # r) =
        (if d \<in> {49, 50, 51} \<and> p = 46 then
           (if 0 < ws_run r \<and> (\<forall>c \<in> set (dropWhile is_ws r). \<not> is_lt c)
            then Some (dropWhile is_ws r) else None)
         else None)"
      by (simp add: choice_match_def backtrack_run)
    have pl: "payload (d # p # r) =
        (if (d \<in> {49, 50, 51} \<and> p = 46 \<and> 0 < ws_run r)
            \<and> (\<forall>c \<in> set (dropWhile is_ws r). \<not> is_lt c)
         then Some (dropWhile is_ws r) else None)"
      by (cases r) (simp_all add: payload_def choice_prefix_def ws_run_def)
    from Cons \<open>l = d # l1\<close> show ?thesis
      by (simp only: cm pl) auto
  qed
qed

lemma map_filter_pair:
  "map snd (List.map_filter (\<lambda>l. map_option (\<lambda>m2. (l, m2)) (f l)) xs) = List.map_filter f xs"
  by (induction xs) (auto simp: List.map_filter_simps split: option.splits)

lemma length_map_filter: "length (List.map_filter f xs) \<le> length xs"
  by (induction xs) (auto simp: List.map_filter_simps split: option.splits)

lemma trim_not_Nil: "s = a # x \<Longrightarrow> \<not> is_ws a \<Longrightarrow> trim s \<noteq> []"
  by (auto simp: trim_def trimStart_def trimEnd_def dropWhile_eq_Nil_conv)

lemma marker_trim: "marker t k \<Longrightarrow> trim (drop k t) \<noteq> []"
proof -
  assume "marker t k"
  then have "starts_one (drop k t)" by (simp add: marker_def)
  then obtain x where "drop k t = 49 # x"
    by (auto simp: starts_one_def split: list.splits)
  from trim_not_Nil[OF this] show ?thesis by (simp add: is_ws_def)
qed

lemma marker_has_one: "marker t i \<Longrightarrow> 49 \<in> set t"
proof -
  assume "marker t i"
  then obtain x where "drop i t = 49 # x"
    by (auto simp: marker_def starts_one_def split: list.splits)
  then have "49 \<in> set (drop i t)" by simp
  then show ?thesis by (rule in_set_dropD)
qed

lemma choices_eq:
  "choices t =
     (if choicesText t = [] then []
      else List.map_filter payload (take 3 (filter choice_prefix (lines_of (choicesText t)))))"
proof -
  have "choice_match = payload" by (rule ext) (rule choice_match_payload)
  then show ?thesis
    by (simp add: choices_def buttons_def choiceLines_def map_filter_pair List.map_filter_simps)
qed

lemma choices_le_3: "length (choices t) \<le> 3"
proof -
  have "length (List.map_filter payload (take 3 (filter choice_prefix (lines_of (choicesText t)))))
      \<le> length (take 3 (filter choice_prefix (lines_of (choicesText t))))"
    by (rule length_map_filter)
  then show ?thesis by (simp add: choices_eq)
qed

subsection \<open>Choice extraction\<close>

text \<open>
  Claim C7 says that the choices are the first three lines after the split that match
  \<open>^[1-3]\.\s+(.*)$\<close>. The code first keeps the first three lines that begin with a
  digit from 1 to 3, a dot and white space, and then drops those among them that do not
  match the whole expression. The first line of \<open>cr_story\<close> begins like a choice and
  does not match, since \<open>.\<close> does not match the carriage return in it: the code shows
  two choices where the claim finds three.
\<close>

theorem choice_extraction_counterexample:
  "trim cr_story = cr_story
   \<and> mainText cr_story = spec_transcript cr_story
   \<and> choices cr_story = [js ''c'', js ''d'']
   \<and> spec_choices cr_story = [js ''c'', js ''d'', js ''e'']
   \<and> choices cr_story \<noteq> spec_choices cr_story"
proof -
  have c: "cr_story
      = [49, 46, 32, 97, 13, 98, 10, 50, 46, 32, 99, 10, 51, 46, 32, 100, 10, 50, 46, 32, 101]"
    by (simp add: cr_story_def js_def nl_def)
  have t: "trim cr_story = cr_story"
    unfolding c by (simp add: trim_def trimStart_def trimEnd_def is_ws_def)
  have l: "lastMatchIndex cr_story = 0"
    unfolding c
    by (simp add: lastMatchIndex_def exec_loop.simps re_exec.simps match_at_def starts_one_def
      ws_run_def is_ws_def nl_def)
  have ct: "choicesText cr_story = cr_story"
    using t by (simp add: choicesText_def l)
  have ls: "lines_of cr_story = [[49, 46, 32, 97, 13, 98], [50, 46, 32, 99], [51, 46, 32, 100],
      [50, 46, 32, 101]]"
    unfolding c by (simp add: lines_of_def nl_def trim_def trimStart_def trimEnd_def is_ws_def)
  have p: "payload [49, 46, 32, 97, 13, 98] = None" "payload [50, 46, 32, 99] = Some [99]"
    "payload [51, 46, 32, 100] = Some [100]" "payload [50, 46, 32, 101] = Some [101]"
    by (simp_all add: payload_def choice_prefix_def is_ws_def is_lt_def)
  have cp: "choice_prefix [49, 46, 32, 97, 13, 98]" "choice_prefix [50, 46, 32, 99]"
    "choice_prefix [51, 46, 32, 100]" "choice_prefix [50, 46, 32, 101]"
    by (simp_all add: choice_prefix_def is_ws_def)
  have a: "choices cr_story = [js ''c'', js ''d'']"
    by (simp add: choices_eq ct ls cp p List.map_filter_simps js_def) (simp add: c)
  have sp: "spec_split cr_story = Some 0"
    unfolding c
    by (simp add: spec_split_def marker_def starts_one_def is_ws_def nl_def upt_conv_Cons)
  have b: "spec_choices cr_story = [js ''c'', js ''d'', js ''e'']"
    by (simp add: spec_choices_def sp ls p List.map_filter_simps js_def)
  have m: "mainText cr_story = spec_transcript cr_story"
    by (simp add: mainText_def l spec_transcript_def sp)
  from t m a b show ?thesis by (simp add: js_def)
qed

text \<open>
  Claim C7, as the code has it. What \<open>renderStory\<close> shows is a function of the trimmed
  text \<open>t\<close>. If no line of \<open>t\<close> begins with \<open>1\<close>, a dot and white space, the transcript is
  \<open>t\<close> and there are no choices. Otherwise the text is split at such a line, after whose
  marker and white space no later line begins so; the transcript is what precedes the
  split, trimmed at the end; and the choices are found in the rest, cut at the newlines
  into trimmed lines that are not empty: of the first three lines that begin with a
  digit from 1 to 3, a dot and white space, those that match \<open>^[1-3]\.\s+(.*)$\<close> give,
  in order, their captured text. There are at most three choices.
\<close>

theorem choice_extraction:
  "(trim text = trim text' \<longrightarrow> renderStory text = renderStory text')
   \<and> ((\<forall>i. \<not> marker t i) \<longrightarrow> mainText t = t \<and> choices t = [])
   \<and> ((\<exists>i. marker t i) \<longrightarrow>
        (\<exists>k. lastMatchIndex t = int k \<and> marker t k
           \<and> (\<forall>j. k + 2 + ws_run (drop (k + 2) t) < j \<longrightarrow> \<not> marker t j)
           \<and> mainText t = trimEnd (take k t)
           \<and> choices t
               = List.map_filter payload
                   (take 3 (filter choice_prefix (lines_of (trim (drop k t)))))))
   \<and> length (choices t) \<le> 3"
proof -
  have same: "renderStory text = renderStory text'" if "trim text = trim text'"
    using that by (simp add: renderStory_def or_else_def)
  have none: "mainText t = t \<and> choices t = []" if "\<forall>i. \<not> marker t i"
    using lastMatchIndex_none[OF that] by (simp add: mainText_def choices_eq choicesText_def)
  have some: "\<exists>k. lastMatchIndex t = int k \<and> marker t k
           \<and> (\<forall>j. k + 2 + ws_run (drop (k + 2) t) < j \<longrightarrow> \<not> marker t j)
           \<and> mainText t = trimEnd (take k t)
           \<and> choices t
               = List.map_filter payload
                   (take 3 (filter choice_prefix (lines_of (trim (drop k t)))))"
    if "\<exists>i. marker t i"
  proof -
    from that obtain i where "marker t i" ..
    from lastMatchIndex_some[OF this] obtain k where k: "lastMatchIndex t = int k"
      and mk: "marker t k"
      and la: "\<forall>j. k + 2 + ws_run (drop (k + 2) t) < j \<longrightarrow> \<not> marker t j" by blast
    from k have mt: "mainText t = trimEnd (take k t)" by (simp add: mainText_def)
    from k have ct: "choicesText t = trim (drop k t)" by (simp add: choicesText_def)
    from marker_trim[OF mk] ct
    have "choices t
        = List.map_filter payload (take 3 (filter choice_prefix (lines_of (trim (drop k t)))))"
      by (simp add: choices_eq)
    with k mk la mt show ?thesis by blast
  qed
  from same none some choices_le_3[of t] show ?thesis by blast
qed

theorem choice_extraction_witness:
  "trim example_story = trim example_story
   \<and> (\<exists>i. marker example_story i)
   \<and> lastMatchIndex example_story = 12
   \<and> mainText example_story = js ''Intro line.''
   \<and> choices example_story = [js ''Go left'', js ''Go right'']
   \<and> (\<forall>i. \<not> marker (js ''Once upon a time.'') i)
   \<and> mainText (js ''Once upon a time.'') = js ''Once upon a time.''
   \<and> choices (js ''Once upon a time.'') = []"
proof -
  have c: "example_story
      = [73, 110, 116, 114, 111, 32, 108, 105, 110, 101, 46, 10, 49, 46, 32, 71, 111, 32, 108,
         101, 102, 116, 10, 50, 46, 32, 71, 111, 32, 114, 105, 103, 104, 116]"
    by (simp add: example_story_def js_def nl_def)
  have l: "lastMatchIndex example_story = 12"
    unfolding c
    by (simp add: lastMatchIndex_def exec_loop.simps re_exec.simps match_at_def starts_one_def
      ws_run_def is_ws_def nl_def)
  have m: "marker example_story 12"
    unfolding c by (simp add: marker_def starts_one_def is_ws_def nl_def)
  then have ex: "\<exists>i. marker example_story i" ..
  from choice_extraction[of example_story example_story example_story] ex l
  have mt: "mainText example_story = trimEnd (take 12 example_story)"
    and ch: "choices example_story
        = List.map_filter payload
            (take 3 (filter choice_prefix (lines_of (trim (drop 12 example_story)))))"
    by auto
  have te: "trimEnd (take 12 example_story) = js ''Intro line.''"
    unfolding c by (simp add: trimEnd_def is_ws_def js_def)
  have ls: "lines_of (trim (drop 12 example_story))
      = [[49, 46, 32, 71, 111, 32, 108, 101, 102, 116],
         [50, 46, 32, 71, 111, 32, 114, 105, 103, 104, 116]]"
    unfolding c by (simp add: lines_of_def nl_def trim_def trimStart_def trimEnd_def is_ws_def)
  have p: "payload [49, 46, 32, 71, 111, 32, 108, 101, 102, 116] = Some (js ''Go left'')"
    "payload [50, 46, 32, 71, 111, 32, 114, 105, 103, 104, 116] = Some (js ''Go right'')"
    by (simp_all add: payload_def choice_prefix_def is_ws_def is_lt_def js_def)
  have cp: "choice_prefix [49, 46, 32, 71, 111, 32, 108, 101, 102, 116]"
    "choice_prefix [50, 46, 32, 71, 111, 32, 114, 105, 103, 104, 116]"
    by (simp_all add: choice_prefix_def is_ws_def)
  have ch': "choices example_story = [js ''Go left'', js ''Go right'']"
    unfolding ch ls by (simp add: cp p List.map_filter_simps)
  have o: "js ''Once upon a time.''
      = [79, 110, 99, 101, 32, 117, 112, 111, 110, 32, 97, 32, 116, 105, 109, 101, 46]"
    by (simp add: js_def)
  have nm: "\<forall>i. \<not> marker (js ''Once upon a time.'') i"
    using marker_has_one[of "js ''Once upon a time.''"] by (auto simp: o)
  from choice_extraction[of "js ''Once upon a time.''" "js ''Once upon a time.''"
      "js ''Once upon a time.''"] nm
  have on: "mainText (js ''Once upon a time.'') = js ''Once upon a time.''"
    "choices (js ''Once upon a time.'') = []"
    by auto
  from ex l mt te ch' nm on show ?thesis by simp
qed

end
